theory Spec2Isabelle
  imports Main "HOL-Library.Word" "HOL-Library.Sublist"
begin


section \<open>Data model of the chunked layer applier\<close>

text \<open>
  The development embeds the planner, the entry merger, the hard-link metadata check and
  the destination writer of \<^verbatim>\<open>pkg/chunked/storage_linux.go\<close>.

  Go's \<^verbatim>\<open>uint64\<close> is a 64-bit word; \<^verbatim>\<open>int64\<close> and \<^verbatim>\<open>int\<close> (64 bits on the
  Linux targets of this file) are 64-bit words read in two's complement: addition and
  subtraction wrap, comparisons are the signed ones (\<open><s\<close>, \<open>\<le>s\<close>), and the conversions
  \<^verbatim>\<open>int(x)\<close>, \<^verbatim>\<open>uint64(x)\<close>, \<^verbatim>\<open>int64(x)\<close> between them keep the bits.
  Slice lengths and the planner's \<^verbatim>\<open>target\<close> are far from the 64-bit bounds and are
  kept as mathematical integers.
\<close>

type_synonym uint64 = "64 word"
type_synonym int64 = "64 word"

text \<open>
  Modelled from the spec: the entry types of a TOC entry (regular, directory, symlink,
  hard-link, character and block device, fifo, chunk-continuation). In the source the
  type is a string, \<^verbatim>\<open>internal.FileMetadata.Type\<close>, and the merger and the planner
  compare it with the two tags \<^verbatim>\<open>TypeReg\<close> and \<^verbatim>\<open>TypeChunk\<close> only; the tags are
  declared outside this file.
\<close>

definition TypeReg :: string where
  "TypeReg = ''reg''"

definition TypeChunk :: string where
  "TypeChunk = ''chunk''"

text \<open>
  Modelled from the spec: \<^verbatim>\<open>internal.FileMetadata\<close>, with the fields this file reads
  or writes. \<^verbatim>\<open>Xattrs\<close> is a Go map, which can be \<^verbatim>\<open>nil\<close> (\<open>None\<close>);
  \<^verbatim>\<open>Chunks\<close> is the list of the entry's chunk records, filled by the entry merger
  (pointers to copies that nothing else refers to, kept by value here).
\<close>

datatype FileMetadata = FileMetadata
  (Type: string)
  (Name: string)
  (Mode: int64)
  (Size: int64)
  (UID: int)
  (GID: int)
  (Xattrs: "(string \<rightharpoonup> string) option")
  (Digest: string)
  (Offset_fm: int64)
  (EndOffset: int64)
  (Chunks_fm: "FileMetadata list")

record ImageSourceChunk =
  Offset :: uint64
  Length :: uint64

record originFile =
  Root :: string
  Path :: string
  Offset_of :: int64

text \<open>
  \<^verbatim>\<open>File\<close> is a pointer: it is \<^verbatim>\<open>nil\<close> (\<open>None\<close>) in the gap chunks that the
  planner itself creates.
\<close>

record missingFileChunk =
  Gap :: int64
  Hole_mf :: bool
  File :: "FileMetadata option"
  CompressedSize :: int64
  UncompressedSize :: int64

text \<open>
  \<^verbatim>\<open>SourceChunk\<close> is a pointer in the source. \<^verbatim>\<open>ApplyDiff\<close>, the only place that
  builds parts, gives every part (also a hole and a part with an origin file) a
  \<^verbatim>\<open>SourceChunk\<close> of its own, and the planner dereferences it without a check; the
  model keeps the pointee in the part.
\<close>

record missingPart =
  Hole :: bool
  SourceChunk :: ImageSourceChunk
  OriginFile :: "originFile option"
  Chunks :: "missingFileChunk list"

text \<open>Run-time panics of the Go code are values of the model.\<close>

datatype panic = SliceBoundsOutOfRange | IndexOutOfRange | NilPointerDereference

section \<open>Request planner: \<^verbatim>\<open>mergeMissingChunks\<close>\<close>

text \<open>
  The two closures of \<^verbatim>\<open>mergeMissingChunks\<close>. They are called with
  \<open>1 \<le> i < length missingParts\<close> only.
\<close>

definition getGap :: "missingPart list \<Rightarrow> nat \<Rightarrow> int64" where
  "getGap missingParts i =
     (let prev = Offset (SourceChunk (missingParts ! (i - 1)))
                   + Length (SourceChunk (missingParts ! (i - 1)))
      in Offset (SourceChunk (missingParts ! i)) - prev)"

definition getCost :: "missingPart list \<Rightarrow> nat \<Rightarrow> int64" where
  "getCost missingParts i =
     (let cost = getGap missingParts i;
          cost = (if OriginFile (missingParts ! (i - 1)) \<noteq> None
                  then cost + Length (SourceChunk (missingParts ! (i - 1))) else cost);
          cost = (if OriginFile (missingParts ! i) \<noteq> None
                  then cost + Length (SourceChunk (missingParts ! i)) else cost)
      in cost)"

text \<open>
  The body of the first loop when its condition holds: the part at \<^verbatim>\<open>prevIndex\<close>
  grows by the part at \<^verbatim>\<open>i\<close>.
\<close>

definition mergeSameFile :: "missingPart \<Rightarrow> int64 \<Rightarrow> missingPart \<Rightarrow> missingPart" where
  "mergeSameFile prev gap cur =
     prev\<lparr>SourceChunk := (SourceChunk prev)
             \<lparr>Length := Length (SourceChunk prev) + (gap + Length (SourceChunk cur))\<rparr>,
          Chunks := (Chunks prev)
             [0 := (Chunks prev ! 0)
                \<lparr>CompressedSize := CompressedSize (Chunks prev ! 0) + CompressedSize (Chunks cur ! 0),
                 UncompressedSize := UncompressedSize (Chunks prev ! 0) + UncompressedSize (Chunks cur ! 0)\<rparr>]\<rparr>"

text \<open>
  The condition of the first loop, with Go's short-circuit evaluation: the two
  \<^verbatim>\<open>File\<close> pointers are dereferenced only when every earlier conjunct holds, and a
  \<^verbatim>\<open>nil\<close> one panics.
\<close>

definition sameFileCond :: "int64 \<Rightarrow> missingPart \<Rightarrow> missingPart \<Rightarrow> panic + bool" where
  "sameFileCond gap prev cur =
     (if gap = 0 \<and> OriginFile prev = None \<and> OriginFile cur = None
         \<and> \<not> Hole prev \<and> \<not> Hole cur
         \<and> length (Chunks prev) = 1 \<and> length (Chunks cur) = 1
      then (case (File (Chunks prev ! 0), File (Chunks cur ! 0)) of
              (Some f, Some g) \<Rightarrow> Inr (Name f = Name g)
            | _ \<Rightarrow> Inl NilPointerDereference)
      else Inr False)"

text \<open>
  The first loop. \<^verbatim>\<open>newMissingParts := missingParts[0:1]\<close> shares the backing array of
  \<^verbatim>\<open>missingParts\<close>, and its length is \<^verbatim>\<open>prevIndex + 1\<close> throughout, so
  \<^verbatim>\<open>append(newMissingParts, missingParts[i])\<close> stores into slot \<^verbatim>\<open>prevIndex + 1\<close> of
  that array (the capacity always suffices, since \<open>prevIndex < i\<close>). The state of the
  loop is the array and \<^verbatim>\<open>prevIndex\<close>.
\<close>

function sameFileLoop ::
  "missingPart list \<Rightarrow> nat \<Rightarrow> nat \<Rightarrow> panic + (missingPart list \<times> nat)" where
  "sameFileLoop missingParts prevIndex i =
     (if i < length missingParts then
        (let gap = getGap missingParts i in
         case sameFileCond gap (missingParts ! prevIndex) (missingParts ! i) of
           Inl p \<Rightarrow> Inl p
         | Inr True \<Rightarrow>
             sameFileLoop
               (missingParts[prevIndex :=
                  mergeSameFile (missingParts ! prevIndex) gap (missingParts ! i)])
               prevIndex (i + 1)
         | Inr False \<Rightarrow>
             sameFileLoop (missingParts[prevIndex + 1 := missingParts ! i])
               (prevIndex + 1) (i + 1))
      else Inr (missingParts, prevIndex))"
  by pat_completeness auto
termination
  by (relation "measure (\<lambda>(missingParts, prevIndex, i). length missingParts - i)") auto

text \<open>The first pass as a whole: the slice \<^verbatim>\<open>newMissingParts\<close> after the loop.\<close>

definition sameFilePass :: "missingPart list \<Rightarrow> panic + missingPart list" where
  "sameFilePass missingParts =
     (case sameFileLoop missingParts 0 1 of
        Inl p \<Rightarrow> Inl p
      | Inr (arr, prevIndex) \<Rightarrow> Inr (take (prevIndex + 1) arr))"

text \<open>The synthetic gap chunk \<^verbatim>\<open>missingFileChunk{Gap: int64(gap)}\<close>.\<close>

definition gapFile :: "int64 \<Rightarrow> missingFileChunk" where
  "gapFile gap =
     \<lparr>Gap = gap, Hole_mf = False, File = None, CompressedSize = 0, UncompressedSize = 0\<rparr>"

text \<open>
  The body of the second loop when the cost is not above the threshold: \<^verbatim>\<open>prev\<close>,
  the last part of \<^verbatim>\<open>newMissingParts\<close>, absorbs the part at \<^verbatim>\<open>i\<close>.
\<close>

definition absorb :: "missingPart \<Rightarrow> int64 \<Rightarrow> missingPart \<Rightarrow> missingPart" where
  "absorb prev gap cur =
     prev\<lparr>SourceChunk := (SourceChunk prev)
             \<lparr>Length := Length (SourceChunk prev) + (gap + Length (SourceChunk cur))\<rparr>,
          Hole := False,
          OriginFile := None,
          Chunks := Chunks prev @ (if 0 <s gap then [gapFile gap] else []) @ Chunks cur\<rparr>"

text \<open>
  The second loop. \<^verbatim>\<open>newMissingParts = missingParts[0:1]\<close> again shares the array;
  \<open>n\<close> is its length. An append stores into slot \<open>n\<close>, and \<^verbatim>\<open>prev\<close> points at slot
  \<open>n - 1\<close>.
\<close>

function costLoop ::
  "int64 \<Rightarrow> missingPart list \<Rightarrow> nat \<Rightarrow> nat \<Rightarrow> missingPart list \<times> nat" where
  "costLoop targetValue missingParts n i =
     (if i < length missingParts then
        (if targetValue <s getCost missingParts i then
           costLoop targetValue (missingParts[n := missingParts ! i]) (n + 1) (i + 1)
         else
           (let gap = getGap missingParts i in
            costLoop targetValue
              (missingParts[n - 1 := absorb (missingParts ! (n - 1)) gap (missingParts ! i)])
              n (i + 1)))
      else (missingParts, n))"
  by pat_completeness auto
termination
  by (relation "measure (\<lambda>(targetValue, missingParts, n, i). length missingParts - i)") auto

definition costPass :: "int64 \<Rightarrow> missingPart list \<Rightarrow> missingPart list" where
  "costPass targetValue missingParts =
     (case costLoop targetValue missingParts 1 1 of (arr, n) \<Rightarrow> take n arr)"

text \<open>
  \<^verbatim>\<open>mergeMissingChunks\<close>. Slicing an empty \<^verbatim>\<open>missingParts\<close> with \<^verbatim>\<open>[0:1]\<close> panics
  (for a slice without spare capacity, which is what the list stands for), and so does
  \<^verbatim>\<open>costs[toShrink]\<close> when there is a single part and the target is below one.
  \<^verbatim>\<open>sort.Ints\<close> orders the costs as signed integers.
\<close>

definition mergeMissingChunks :: "missingPart list \<Rightarrow> int \<Rightarrow> panic + missingPart list" where
  "mergeMissingChunks missingParts target =
     (if missingParts = [] then Inl SliceBoundsOutOfRange
      else case sameFilePass missingParts of
        Inl p \<Rightarrow> Inl p
      | Inr missingParts \<Rightarrow>
          if int (length missingParts) \<le> target then Inr missingParts
          else
            (let costs = sort_key sint (map (getCost missingParts) [1..<length missingParts]);
                 toShrink = int (length missingParts) - target;
                 toShrink = (if toShrink \<ge> int (length costs)
                             then int (length costs) - 1 else toShrink)
             in if toShrink < 0 \<or> int (length costs) \<le> toShrink then Inl IndexOutOfRange
                else Inr (costPass (costs ! nat toShrink) missingParts)))"

subsection \<open>The two loops as recursions over the parts not yet visited\<close>

text \<open>
  Both loops read the part at \<^verbatim>\<open>i - 1\<close> (for the gap and the cost) and the last
  part of \<^verbatim>\<open>newMissingParts\<close>. \<open>coalesceSame cur porig rest\<close> is the first loop
  with \<open>cur\<close> the last part of \<^verbatim>\<open>newMissingParts\<close>, \<open>porig\<close> the part at \<^verbatim>\<open>i - 1\<close>
  and \<open>rest\<close> the parts from \<^verbatim>\<open>i\<close> on; \<open>absorbRun\<close> is the second loop in the
  same form. They are proved equal to the loops on the array below.
\<close>

fun coalesceSame ::
  "missingPart \<Rightarrow> missingPart \<Rightarrow> missingPart list \<Rightarrow> panic + missingPart list" where
  "coalesceSame cur porig [] = Inr [cur]"
| "coalesceSame cur porig (c # cs) =
     (let gap = getGap [porig, c] 1 in
      case sameFileCond gap cur c of
        Inl p \<Rightarrow> Inl p
      | Inr True \<Rightarrow> coalesceSame (mergeSameFile cur gap c) c cs
      | Inr False \<Rightarrow>
          (case coalesceSame c c cs of Inl p \<Rightarrow> Inl p | Inr out \<Rightarrow> Inr (cur # out)))"

fun absorbRun ::
  "int64 \<Rightarrow> missingPart \<Rightarrow> missingPart \<Rightarrow> missingPart list \<Rightarrow> missingPart list" where
  "absorbRun tv cur porig [] = [cur]"
| "absorbRun tv cur porig (c # cs) =
     (if tv <s getCost [porig, c] 1 then cur # absorbRun tv c c cs
      else absorbRun tv (absorb cur (getGap [porig, c] 1) c) c cs)"

text \<open>The end of a part's byte range on the blob.\<close>

definition endOf :: "missingPart \<Rightarrow> uint64" where
  "endOf p = Offset (SourceChunk p) + Length (SourceChunk p)"

text \<open>
  Two adjacent parts that the first loop would merge: no gap, both remote (no origin
  file, no hole), one chunk each, and both chunks for the same file name.
\<close>

definition sameFileZeroGap :: "missingPart \<Rightarrow> missingPart \<Rightarrow> bool" where
  "sameFileZeroGap x y =
     (getGap [x, y] 1 = 0 \<and> OriginFile x = None \<and> OriginFile y = None
      \<and> \<not> Hole x \<and> \<not> Hole y
      \<and> length (Chunks x) = 1 \<and> length (Chunks y) = 1
      \<and> (case (File (Chunks x ! 0), File (Chunks y ! 0)) of
            (Some f, Some g) \<Rightarrow> Name f = Name g
          | _ \<Rightarrow> False))"

subsection \<open>Parts as \<^verbatim>\<open>ApplyDiff\<close> builds them\<close>

text \<open>
  For every chunk of a file that was not found locally, \<^verbatim>\<open>ApplyDiff\<close> appends a part
  with its own \<^verbatim>\<open>SourceChunk\<close> and a single chunk record. \<open>remotePart\<close> is the part
  of a data chunk that has to be fetched.
\<close>

definition fileChunk :: "FileMetadata \<Rightarrow> int64 \<Rightarrow> int64 \<Rightarrow> missingFileChunk" where
  "fileChunk file compressedSize uncompressedSize =
     \<lparr>Gap = 0, Hole_mf = False, File = Some file,
      CompressedSize = compressedSize, UncompressedSize = uncompressedSize\<rparr>"

definition remotePart :: "FileMetadata \<Rightarrow> uint64 \<Rightarrow> int64 \<Rightarrow> int64 \<Rightarrow> missingPart" where
  "remotePart file offset compressedSize uncompressedSize =
     \<lparr>Hole = False, SourceChunk = \<lparr>Offset = offset, Length = compressedSize\<rparr>,
      OriginFile = None, Chunks = [fileChunk file compressedSize uncompressedSize]\<rparr>"

text \<open>
  The part of a chunk of zeros (\<^verbatim>\<open>ChunkTypeZeros\<close>): \<^verbatim>\<open>ApplyDiff\<close> marks the part
  and its chunk as holes. It is written without a request to the blob source.
\<close>

definition holePart :: "FileMetadata \<Rightarrow> uint64 \<Rightarrow> int64 \<Rightarrow> int64 \<Rightarrow> missingPart" where
  "holePart file offset compressedSize uncompressedSize =
     \<lparr>Hole = True, SourceChunk = \<lparr>Offset = offset, Length = compressedSize\<rparr>,
      OriginFile = None,
      Chunks = [(fileChunk file compressedSize uncompressedSize)\<lparr>Hole_mf := True\<rparr>]\<rparr>"

text \<open>A regular-file entry with the given name, all other fields zero.\<close>

definition regularFile :: "string \<Rightarrow> FileMetadata" where
  "regularFile name = FileMetadata TypeReg name 0 0 0 0 None [] 0 0 []"

section \<open>Retry on a rejected range request: \<^verbatim>\<open>retrieveMissingFiles\<close>\<close>

text \<open>
  The blob source and \<^verbatim>\<open>storeMissingFiles\<close> are parameters. \<^verbatim>\<open>GetBlobAt\<close> takes
  the state of the source and the requested chunks and returns the streams or an error,
  with the new state of the source; \<^verbatim>\<open>ErrBadRequest\<close> is the error type the loop
  tests for. The function returns its result together with the state in which it leaves
  the source.
\<close>

datatype error = ErrBadRequest string | ErrOther string

definition calculateChunksToRequest :: "missingPart list \<Rightarrow> ImageSourceChunk list" where
  "calculateChunksToRequest missingParts =
     map SourceChunk (filter (\<lambda>c. OriginFile c = None \<and> \<not> Hole c) missingParts)"

function retrieveMissingFiles ::
  "('src \<Rightarrow> ImageSourceChunk list \<Rightarrow> (error + 'streams) \<times> 'src)
   \<Rightarrow> ('streams \<Rightarrow> missingPart list \<Rightarrow> error option)
   \<Rightarrow> 'src \<Rightarrow> missingPart list \<Rightarrow> panic + (error option \<times> 'src)" where
  "retrieveMissingFiles GetBlobAt storeMissingFiles stream missingParts =
     (case GetBlobAt stream (calculateChunksToRequest missingParts) of
        (Inr streams, stream') \<Rightarrow> Inr (storeMissingFiles streams missingParts, stream')
      | (Inl (ErrBadRequest e), stream') \<Rightarrow>
          (let requested = int (length missingParts) in
           if requested < 64 then Inr (Some (ErrBadRequest e), stream')
           else (case mergeMissingChunks missingParts (requested div 2) of
                   Inl p \<Rightarrow> Inl p
                 | Inr missingParts' \<Rightarrow>
                     retrieveMissingFiles GetBlobAt storeMissingFiles stream' missingParts'))
      | (Inl (ErrOther e), stream') \<Rightarrow> Inr (Some (ErrOther e), stream'))"
  by pat_completeness auto

section \<open>Entry merger: \<^verbatim>\<open>mergeTocEntries\<close>\<close>

datatype compressedFileType =
  fileTypeZstdChunked | fileTypeEstargz | fileTypeNoCompression | fileTypeHole

text \<open>
  The names of the eStargz metadata files (\<^verbatim>\<open>estargz.PrefetchLandmark\<close>,
  \<^verbatim>\<open>estargz.NoPrefetchLandmark\<close>, \<^verbatim>\<open>estargz.TOCTarName\<close>), as the estargz package
  declares them.
\<close>

definition PrefetchLandmark :: string where
  "PrefetchLandmark = ''.prefetch.landmark''"

definition NoPrefetchLandmark :: string where
  "NoPrefetchLandmark = ''.no.prefetch.landmark''"

definition TOCTarName :: string where
  "TOCTarName = ''stargz.index.json''"

definition mustSkipFile :: "compressedFileType \<Rightarrow> FileMetadata \<Rightarrow> bool" where
  "mustSkipFile fileType e =
     (if fileType \<noteq> fileTypeEstargz then False
      else Name e = PrefetchLandmark \<or> Name e = NoPrefetchLandmark \<or> Name e = TOCTarName)"

text \<open>Assignments to single fields of an entry.\<close>

primrec setSize :: "int64 \<Rightarrow> FileMetadata \<Rightarrow> FileMetadata" where
  "setSize v (FileMetadata t n mo s u g x d off eo cs) = FileMetadata t n mo v u g x d off eo cs"

primrec setEndOffset :: "int64 \<Rightarrow> FileMetadata \<Rightarrow> FileMetadata" where
  "setEndOffset v (FileMetadata t n mo s u g x d off eo cs) = FileMetadata t n mo s u g x d off v cs"

primrec setChunks :: "FileMetadata list \<Rightarrow> FileMetadata \<Rightarrow> FileMetadata" where
  "setChunks v (FileMetadata t n mo s u g x d off eo cs) = FileMetadata t n mo s u g x d off eo v"

text \<open>The zero value of the struct, which \<^verbatim>\<open>make\<close> fills the result slice with.\<close>

definition zeroFileMetadata :: FileMetadata where
  "zeroFileMetadata = FileMetadata [] [] 0 0 0 0 None [] 0 0 []"

text \<open>
  The closure \<^verbatim>\<open>countNextChunks\<close>: the number of chunk-continuation entries at the
  front of \<^verbatim>\<open>entries[start:]\<close>.
\<close>

fun countChunks :: "FileMetadata list \<Rightarrow> nat" where
  "countChunks [] = 0"
| "countChunks (e # es) = (if Type e \<noteq> TypeChunk then 0 else Suc (countChunks es))"

definition countNextChunks :: "FileMetadata list \<Rightarrow> nat \<Rightarrow> nat" where
  "countNextChunks entries start = countChunks (drop start entries)"

text \<open>The first loop: the length of the result slice.\<close>

definition mergedSize :: "compressedFileType \<Rightarrow> FileMetadata list \<Rightarrow> nat" where
  "mergedSize fileType entries =
     length (filter (\<lambda>entry. \<not> mustSkipFile fileType entry \<and> Type entry \<noteq> TypeChunk) entries)"

text \<open>
  The inner loop over \<^verbatim>\<open>j = 0 .. nChunks\<close>: the chunk list of a regular file is made
  of copies of the entry itself and of the \<^verbatim>\<open>nChunks\<close> entries after it, and the file
  takes the \<^verbatim>\<open>EndOffset\<close> of the last of them.
\<close>

definition absorbChunks :: "FileMetadata list \<Rightarrow> nat \<Rightarrow> nat \<Rightarrow> FileMetadata \<Rightarrow> FileMetadata" where
  "absorbChunks entries i nChunks e =
     setEndOffset (EndOffset (entries ! (i + nChunks)))
       (setChunks (map (\<lambda>j. entries ! (i + j)) [0..<nChunks + 1]) e)"

text \<open>
  A failure of the merger is the error it returns or a panic. The main loop stores into
  the slice made before it and panics when the index \<open>m\<close> is out of range.
\<close>

datatype failure = Failed string | Panicked panic

function mergeLoop ::
  "compressedFileType \<Rightarrow> FileMetadata list \<Rightarrow> FileMetadata list \<Rightarrow> nat \<Rightarrow> int64 \<Rightarrow> nat
   \<Rightarrow> failure + (FileMetadata list \<times> int64)" where
  "mergeLoop fileType entries mergedEntries m totalFilesSize i =
     (if i < length entries then
        (let e = entries ! i in
         if mustSkipFile fileType e
         then mergeLoop fileType entries mergedEntries m totalFilesSize (i + 1)
         else
           (let totalFilesSize' = totalFilesSize + Size e in
            if Type e = TypeChunk then Inl (Failed ''chunk type without a regular file'')
            else
              (let nChunks = (if Type e = TypeReg then countNextChunks entries (i + 1) else 0);
                   e' = (if Type e = TypeReg then absorbChunks entries i nChunks e else e)
               in if m < length mergedEntries
                  then mergeLoop fileType entries (mergedEntries[m := e']) (m + 1)
                         totalFilesSize' (i + nChunks + 1)
                  else Inl (Panicked IndexOutOfRange))))
      else Inr (mergedEntries, totalFilesSize))"
  by pat_completeness auto
termination
  by (relation "measure (\<lambda>(fileType, entries, mergedEntries, m, totalFilesSize, i).
        length entries - i)") auto

text \<open>
  The last loop walks the merged entries, and the chunks of each, from the last to the
  first. \<open>chunkStep\<close> and \<open>entryStep\<close> are the bodies of the inner and of the outer
  loop; the second component of the state is \<^verbatim>\<open>lastChunkOffset\<close> and
  \<^verbatim>\<open>lastOffset\<close>.
\<close>

definition chunkStep ::
  "FileMetadata \<Rightarrow> FileMetadata list \<times> int64 \<Rightarrow> FileMetadata list \<times> int64" where
  "chunkStep c = (\<lambda>(acc, lastChunkOffset).
     (setSize (lastChunkOffset - Offset_fm c) (setEndOffset lastChunkOffset c) # acc,
      Offset_fm c))"

definition entryStep ::
  "FileMetadata \<Rightarrow> FileMetadata list \<times> int64 \<Rightarrow> FileMetadata list \<times> int64" where
  "entryStep e = (\<lambda>(acc, lastOffset).
     (let e1 = (if EndOffset e = 0 then setEndOffset lastOffset e else e);
          lastOffset' = (if Offset_fm e1 \<noteq> 0 then Offset_fm e1 else lastOffset);
          e2 = setChunks (fst (foldr chunkStep (Chunks_fm e1) ([], EndOffset e1))) e1
      in (e2 # acc, lastOffset')))"

definition fixEndOffsets :: "int64 \<Rightarrow> FileMetadata list \<Rightarrow> FileMetadata list" where
  "fixEndOffsets tocOffset mergedEntries = fst (foldr entryStep mergedEntries ([], tocOffset))"

text \<open>\<^verbatim>\<open>mergeTocEntries\<close>; \<open>tocOffset\<close> is the field \<^verbatim>\<open>c.tocOffset\<close> of the differ.\<close>

definition mergeTocEntries ::
  "int64 \<Rightarrow> compressedFileType \<Rightarrow> FileMetadata list \<Rightarrow> failure + (FileMetadata list \<times> int64)" where
  "mergeTocEntries tocOffset fileType entries =
     (let size = mergedSize fileType entries in
      case mergeLoop fileType entries (replicate size zeroFileMetadata) 0 0 0 of
        Inl f \<Rightarrow> Inl f
      | Inr (mergedEntries, totalFilesSize) \<Rightarrow>
          Inr (fixEndOffsets tocOffset mergedEntries, totalFilesSize))"

subsection \<open>The main loop as a recursion over the entries not yet visited\<close>

definition isChunk :: "FileMetadata \<Rightarrow> bool" where
  "isChunk e = (Type e = TypeChunk)"

function absorbEntries ::
  "compressedFileType \<Rightarrow> FileMetadata list \<Rightarrow> failure + (FileMetadata list \<times> int64)" where
  "absorbEntries fileType [] = Inr ([], 0)"
| "absorbEntries fileType (e # es) =
     (if mustSkipFile fileType e then absorbEntries fileType es
      else if Type e = TypeChunk then Inl (Failed ''chunk type without a regular file'')
      else if Type e = TypeReg then
        (case absorbEntries fileType (dropWhile isChunk es) of
           Inl f \<Rightarrow> Inl f
         | Inr (ms, totalSize) \<Rightarrow>
             Inr (setEndOffset (EndOffset (last (e # takeWhile isChunk es)))
                    (setChunks (e # takeWhile isChunk es) e) # ms,
                  Size e + totalSize))
      else
        (case absorbEntries fileType es of
           Inl f \<Rightarrow> Inl f
         | Inr (ms, totalSize) \<Rightarrow> Inr (e # ms, Size e + totalSize)))"
  by pat_completeness auto
termination
  by (relation "measure (\<lambda>(fileType, entries). length entries)")
     (auto simp: length_dropWhile_le le_imp_less_Suc)

text \<open>
  The last loop entry by entry: \<open>lastOffsetOf tocOffset es\<close> is \<^verbatim>\<open>lastOffset\<close> after
  the loop has walked the entries \<open>es\<close> (from the last to the first), and
  \<open>fixEntry lastOffset e\<close> is what the body of the loop makes of the entry \<open>e\<close>.
\<close>

definition lastOffsetOf :: "int64 \<Rightarrow> FileMetadata list \<Rightarrow> int64" where
  "lastOffsetOf tocOffset es =
     foldr (\<lambda>e lo. if Offset_fm e \<noteq> 0 then Offset_fm e else lo) es tocOffset"

definition fixEntry :: "int64 \<Rightarrow> FileMetadata \<Rightarrow> FileMetadata" where
  "fixEntry lastOffset e =
     (let e1 = (if EndOffset e = 0 then setEndOffset lastOffset e else e)
      in setChunks (fst (foldr chunkStep (Chunks_fm e1) ([], EndOffset e1))) e1)"

text \<open>
  What a second run of the merger makes of a merged entry: the chunk list of a regular
  file becomes a single chunk, a copy of the merged entry with its size recomputed from
  its offsets. Other entries stay as they are.
\<close>

definition collapseChunks :: "FileMetadata \<Rightarrow> FileMetadata" where
  "collapseChunks e =
     (if Type e = TypeReg then setChunks [setSize (EndOffset e - Offset_fm e) e] e else e)"

text \<open>
  A TOC entry as the manifest gives it, with its type, name, size and offset; the other
  fields are zero and the chunk list is empty.
\<close>

definition tocEntry :: "string \<Rightarrow> string \<Rightarrow> int64 \<Rightarrow> int64 \<Rightarrow> FileMetadata" where
  "tocEntry type name sz offset = FileMetadata type name 0 sz 0 0 None [] offset 0 []"

section \<open>Dedup probe: metadata compatibility for hard links\<close>

text \<open>The variable \<^verbatim>\<open>xattrsToIgnore\<close>: the keys of the map.\<close>

definition xattrsToIgnore :: "string set" where
  "xattrsToIgnore = {''security.selinux''}"

text \<open>
  \<^verbatim>\<open>reflect.DeepEqual\<close> on two values of type \<^verbatim>\<open>map[string]string\<close>: they are both
  \<^verbatim>\<open>nil\<close>, or both not \<^verbatim>\<open>nil\<close> with the same keys and values. A \<^verbatim>\<open>nil\<close> map and
  an empty map that is not \<^verbatim>\<open>nil\<close> are not deeply equal.
\<close>

definition DeepEqual :: "(string \<rightharpoonup> string) option \<Rightarrow> (string \<rightharpoonup> string) option \<Rightarrow> bool" where
  "DeepEqual a b =
     (case (a, b) of
        (None, None) \<Rightarrow> True
      | (Some m, Some m') \<Rightarrow> m = m'
      | _ \<Rightarrow> False)"

definition canDedupMetadataWithHardLink :: "FileMetadata \<Rightarrow> FileMetadata \<Rightarrow> bool" where
  "canDedupMetadataWithHardLink file otherFile =
     (if UID file \<noteq> UID otherFile then False
      else if GID file \<noteq> GID otherFile then False
      else if Mode file \<noteq> Mode otherFile then False
      else if \<not> DeepEqual (Xattrs file) (Xattrs otherFile) then False
      else True)"

text \<open>
  The stat data of the candidate, \<^verbatim>\<open>s.Sys()\<close>: the three fields that are read.
\<close>

record Stat_t =
  Uid :: "32 word"
  Gid :: "32 word"
  Mode_st :: "32 word"

text \<open>
  Package \<^verbatim>\<open>system\<close> is not in the sources: its \<^verbatim>\<open>Llistxattr\<close> and \<^verbatim>\<open>Lgetxattr\<close>
  are parameters, functions of the path they are called with (\<open>None\<close> is an error).
\<close>

record xattrCalls =
  Llistxattr :: "string \<Rightarrow> string list option"
  Lgetxattr :: "string \<Rightarrow> string \<Rightarrow> string option"

text \<open>
  \<^verbatim>\<open>fmt.Sprintf("/proc/self/fd/%d", fd)\<close>: the path of the descriptor's entry in
  \<^verbatim>\<open>/proc\<close>, the descriptor written in decimal.
\<close>

fun digits :: "nat \<Rightarrow> string" where
  "digits n =
     (if n < 10 then [''0123456789'' ! n]
      else digits (n div 10) @ [''0123456789'' ! (n mod 10)])"

definition procSelfFd :: "int \<Rightarrow> string" where
  "procSelfFd fd =
     ''/proc/self/fd/'' @ (if fd < 0 then CHR ''-'' # digits (nat (- fd)) else digits (nat fd))"

text \<open>
  The loop over \<^verbatim>\<open>listXattrs\<close>: every attribute is read, a failed read ends the
  function with \<^verbatim>\<open>false\<close> (\<open>None\<close> here), and an attribute on the ignore list is
  left out of the map after it was read.
\<close>

fun readXattrs ::
  "(string \<Rightarrow> string option) \<Rightarrow> string list \<Rightarrow> (string \<rightharpoonup> string) \<Rightarrow> (string \<rightharpoonup> string) option" where
  "readXattrs getxattr [] xattrs = Some xattrs"
| "readXattrs getxattr (x # xs) xattrs =
     (case getxattr x of
        None \<Rightarrow> None
      | Some v \<Rightarrow>
          if x \<in> xattrsToIgnore then readXattrs getxattr xs xattrs
          else readXattrs getxattr xs (xattrs(x \<mapsto> v)))"

text \<open>
  \<^verbatim>\<open>canDedupFileWithHardLink\<close>, with the descriptor \<open>fd\<close> of the open candidate and
  its stat data \<open>s\<close> (\<open>None\<close> when \<^verbatim>\<open>s.Sys()\<close> is not a \<^verbatim>\<open>*syscall.Stat_t\<close>). Both
  calls get the path of the descriptor's entry in \<^verbatim>\<open>/proc\<close>.
\<close>

definition canDedupFileWithHardLink ::
  "xattrCalls \<Rightarrow> FileMetadata \<Rightarrow> int \<Rightarrow> Stat_t option \<Rightarrow> bool" where
  "canDedupFileWithHardLink system file fd s =
     (case s of
        None \<Rightarrow> False
      | Some st \<Rightarrow>
          (let path = procSelfFd fd in
           case Llistxattr system path of
             None \<Rightarrow> False
           | Some listXattrs \<Rightarrow>
               (case readXattrs (Lgetxattr system path) listXattrs Map.empty of
                  None \<Rightarrow> False
                | Some xattrs \<Rightarrow>
                    canDedupMetadataWithHardLink file
                      (FileMetadata [] [] (ucast (Mode_st st)) 0 (uint (Uid st)) (uint (Gid st))
                         (Some xattrs) [] 0 0 []))))"

subsection \<open>The two calls on a file system\<close>

text \<open>
  What the two calls return is decided by the system. \<^verbatim>\<open>llistxattr(2)\<close> and
  \<^verbatim>\<open>lgetxattr(2)\<close> read the attributes of the node that the path names and do not
  follow a symbolic link at its end: for a link they read the attributes of the link
  itself. The entries of \<^verbatim>\<open>/proc/self/fd\<close> are symbolic links to the open files, and
  such a link carries no attributes. \<open>noFollowCalls\<close> is the two calls on a file system
  given as a map from paths to nodes, a regular file with its attributes or a symbolic
  link with its target; \<open>attributesOfOpenFile\<close> is the attributes of the file that a
  descriptor is open on, found through the link.
\<close>

datatype node = RegularNode "(string \<times> string) list" | SymlinkNode string

definition attributesAt :: "(string \<rightharpoonup> node) \<Rightarrow> string \<Rightarrow> (string \<times> string) list option" where
  "attributesAt fs path =
     (case fs path of
        None \<Rightarrow> None
      | Some (RegularNode attrs) \<Rightarrow> Some attrs
      | Some (SymlinkNode target) \<Rightarrow> Some [])"

definition noFollowCalls :: "(string \<rightharpoonup> node) \<Rightarrow> xattrCalls" where
  "noFollowCalls fs =
     \<lparr>Llistxattr = (\<lambda>path. map_option (map fst) (attributesAt fs path)),
      Lgetxattr = (\<lambda>path name. case attributesAt fs path of
                                  None \<Rightarrow> None
                                | Some attrs \<Rightarrow> map_of attrs name)\<rparr>"

definition attributesOfOpenFile :: "(string \<rightharpoonup> node) \<Rightarrow> int \<Rightarrow> (string \<rightharpoonup> string) option" where
  "attributesOfOpenFile fs fd =
     (case fs (procSelfFd fd) of
        Some (SymlinkNode target) \<Rightarrow>
          (case fs target of
             Some (RegularNode attrs) \<Rightarrow> Some (map_of attrs)
           | _ \<Rightarrow> None)
      | _ \<Rightarrow> None)"

section \<open>Destination writer\<close>

type_synonym byte = "8 word"

text \<open>
  Errors of the writer: the checksum mismatch of \<^verbatim>\<open>Close\<close> with the file name, the
  digest computed and the digest of the manifest; the error of \<^verbatim>\<open>digest.Parse\<close>; an
  error of a system call or of a decoder; a panic.
\<close>

datatype fileError =
    ChecksumMismatch string string string
  | InvalidDigest string
  | SyscallError string
  | RuntimePanic string

text \<open>
  The open file (its name, its bytes and the file offset), the bytes the hasher has
  taken (\<open>None\<close> when \<^verbatim>\<open>hash\<close> and \<^verbatim>\<open>digester\<close> are \<^verbatim>\<open>nil\<close>), and the fields of
  \<^verbatim>\<open>destinationFile\<close> that \<^verbatim>\<open>Close\<close> reads. \<open>hasRecordFsVerity\<close> says that the
  field \<^verbatim>\<open>recordFsVerity\<close> is not \<^verbatim>\<open>nil\<close>.
\<close>

record destinationFile =
  fileName :: string
  content :: "byte list"
  fileOffset :: int
  hash :: "byte list option"
  metadata :: FileMetadata
  skipValidation :: bool
  hasRecordFsVerity :: bool

text \<open>
  What the model takes from outside: \<^verbatim>\<open>digest.Parse\<close> accepts a string or not (and
  returns it unchanged), \<open>digestOf\<close> is the canonical digest of a byte string, and the
  system calls of \<^verbatim>\<open>openDestinationFile\<close> and \<^verbatim>\<open>Close\<close> succeed (\<open>None\<close>) or fail
  with a message.
\<close>

record world =
  validDigest :: "string \<Rightarrow> bool"
  digestOf :: "byte list \<Rightarrow> string"
  openFileUnderRoot :: "string \<Rightarrow> string option"
  setFileAttrs :: "destinationFile \<Rightarrow> string option"
  reopenFileReadOnly :: "destinationFile \<Rightarrow> string option"
  closeFile :: "destinationFile \<Rightarrow> string option"
  recordFsVerity :: "string \<Rightarrow> string option"

definition sysErr :: "string option \<Rightarrow> fileError option" where
  "sysErr r = map_option SyscallError r"

text \<open>
  \<^verbatim>\<open>openDestinationFile\<close>: the file is created empty (\<^verbatim>\<open>O_CREAT|O_TRUNC|O_EXCL\<close>),
  and it gets a hasher unless \<^verbatim>\<open>skipValidation\<close> is set.
\<close>

definition openDestinationFile ::
  "world \<Rightarrow> FileMetadata \<Rightarrow> bool \<Rightarrow> bool \<Rightarrow> fileError + destinationFile" where
  "openDestinationFile w md skip verity =
     (case openFileUnderRoot w (Name md) of
        Some err \<Rightarrow> Inl (SyscallError err)
      | None \<Rightarrow>
          Inr \<lparr>fileName = Name md, content = [], fileOffset = 0,
               hash = (if skip then None else Some []),
               metadata = md, skipValidation = skip, hasRecordFsVerity = verity\<rparr>)"

text \<open>
  The deferred function of \<^verbatim>\<open>Close\<close>: it reopens the file when fs-verity is to be
  recorded, closes the file, records fs-verity, and replaces the result \<^verbatim>\<open>Err\<close> only
  where it is \<^verbatim>\<open>nil\<close>.
\<close>

definition deferredClose :: "world \<Rightarrow> destinationFile \<Rightarrow> fileError option \<Rightarrow> fileError option" where
  "deferredClose w d Err =
     (let reopened = (if hasRecordFsVerity d then Some (reopenFileReadOnly w d) else None);
          roFile = (reopened = Some None);
          Err1 = (case reopened of
                    Some (Some err) \<Rightarrow> (if Err = None then Some (SyscallError err) else Err)
                  | _ \<Rightarrow> Err);
          Err2 = (if Err1 = None then sysErr (closeFile w d) else Err1);
          Err3 = (if Err2 = None \<and> roFile then sysErr (recordFsVerity w (Name (metadata d)))
                  else Err2)
      in Err3)"

text \<open>
  \<^verbatim>\<open>Close\<close>. With validation, the digest of the manifest is parsed and compared with
  the digest of the bytes the hasher has taken; calling \<^verbatim>\<open>Digest\<close> on a \<^verbatim>\<open>nil\<close>
  digester panics.
\<close>

definition Close :: "world \<Rightarrow> destinationFile \<Rightarrow> fileError option" where
  "Close w d =
     (if \<not> skipValidation d then
        (if \<not> validDigest w (Digest (metadata d))
         then deferredClose w d (Some (InvalidDigest (Digest (metadata d))))
         else
           (case hash d of
              None \<Rightarrow> Some (RuntimePanic ''nil pointer dereference'')
            | Some written \<Rightarrow>
                if digestOf w written \<noteq> Digest (metadata d)
                then deferredClose w d
                       (Some (ChecksumMismatch (fileName d) (digestOf w written)
                                (Digest (metadata d))))
                else deferredClose w d (sysErr (setFileAttrs w d))))
      else deferredClose w d (sysErr (setFileAttrs w d)))"

subsection \<open>Writing to the file\<close>

text \<open>
  A write of \<open>bs\<close> at the file offset, as \<^verbatim>\<open>write(2)\<close> does it: the bytes replace
  those at the offset, a gap between the end of the file and the offset reads as zeros.
  \<^verbatim>\<open>destFile.to\<close> writes to the file and, when there is one, to the hasher.
\<close>

definition writeFile :: "byte list \<Rightarrow> destinationFile \<Rightarrow> destinationFile" where
  "writeFile bs d =
     d\<lparr>content := take (nat (fileOffset d)) (content d)
                   @ replicate (nat (fileOffset d) - length (content d)) 0
                   @ bs
                   @ drop (nat (fileOffset d) + length bs) (content d),
       fileOffset := fileOffset d + int (length bs)\<rparr>"

definition writeTo :: "byte list \<Rightarrow> destinationFile \<Rightarrow> destinationFile" where
  "writeTo bs d =
     (if bs = [] then d
      else (writeFile bs d)\<lparr>hash := map_option (\<lambda>h. h @ bs) (hash d)\<rparr>)"

text \<open>
  \<^verbatim>\<open>hashHole\<close>. The first loop zeroes the front of the copy buffer; the second writes
  it to the hasher until \<^verbatim>\<open>size\<close> bytes are written. With an empty buffer and a
  positive size the second loop never ends: the function is partial.
\<close>

definition zeroFront :: "int \<Rightarrow> byte list \<Rightarrow> byte list" where
  "zeroFront count copyBuffer = replicate (nat count) 0 @ drop (nat count) copyBuffer"

partial_function (option) hashHoleLoop :: "byte list \<Rightarrow> int \<Rightarrow> byte list \<Rightarrow> byte list option" where
  "hashHoleLoop h sz copyBuffer =
     (if sz > 0 then
        (let count = (if sz < int (length copyBuffer) then sz else int (length copyBuffer))
         in hashHoleLoop (h @ take (nat count) copyBuffer) (sz - count) copyBuffer)
      else Some h)"

definition hashHole :: "byte list \<Rightarrow> int \<Rightarrow> byte list \<Rightarrow> byte list option" where
  "hashHole h sz copyBuffer =
     (let count = (if sz < int (length copyBuffer) then sz else int (length copyBuffer))
      in hashHoleLoop h sz (zeroFront count copyBuffer))"

text \<open>
  \<^verbatim>\<open>appendHole\<close>: \<^verbatim>\<open>lseek\<close> by \<open>sz\<close> from the current offset (an error when the
  new offset is negative), then \<^verbatim>\<open>ftruncate\<close> to the new offset, which cuts the file
  or extends it with zeros.
\<close>

definition appendHole :: "destinationFile \<Rightarrow> int \<Rightarrow> fileError + destinationFile" where
  "appendHole d sz =
     (let off = fileOffset d + sz in
      if off < 0 then Inl (SyscallError ''invalid argument'')
      else Inr (d\<lparr>fileOffset := off,
                  content := take (nat off) (content d)
                             @ replicate (nat off - length (content d)) 0\<rparr>))"

text \<open>
  The decoders of the differ, each with the bytes it will deliver and the way its stream
  ends after them (an error of the read, or \<open>None\<close> for the end of the stream), and the
  copy buffer.
\<close>

record decoders =
  zstdReader :: "byte list \<times> string option"
  gzipReader :: "byte list \<times> string option"
  rawReader :: "byte list \<times> string option"
  copyBuffer :: "byte list"

text \<open>
  \<^verbatim>\<open>io.CopyBuffer(destFile.to, io.LimitReader(r, size), c.copyBuffer)\<close>: at most
  \<open>sz\<close> bytes of the reader go to the file and the hasher, and nothing is written
  when there are none; an empty buffer panics (every differ is made with
  \<^verbatim>\<open>makeCopyBuffer\<close>; a \<^verbatim>\<open>nil\<close> buffer, in place of which \<^verbatim>\<open>io.CopyBuffer\<close> would
  allocate one, is not told apart from an empty one); with a size that is not positive
  the reader is not read. When the reader ends with an error before \<open>sz\<close> bytes, the bytes
  it delivered are written and the error is returned; at the end of the stream no error
  is returned. The file is changed in place: an error comes with the file as the call
  left it. Errors of the writes themselves are left out of the model.
\<close>

definition copyLimited ::
  "byte list \<Rightarrow> byte list \<times> string option \<Rightarrow> int \<Rightarrow> destinationFile
   \<Rightarrow> (fileError \<times> destinationFile) + destinationFile" where
  "copyLimited buf reader sz d =
     (if buf = [] then Inl (RuntimePanic ''empty buffer in CopyBuffer'', d)
      else if sz \<le> 0 then Inr d
      else
        (let written = writeTo (take (nat sz) (fst reader)) d in
         if int (length (fst reader)) < sz then
           (case snd reader of
              Some err \<Rightarrow> Inl (SyscallError err, written)
            | None \<Rightarrow> Inr written)
         else Inr written))"

text \<open>
  \<^verbatim>\<open>appendCompressedStreamToFile\<close>; \<open>None\<close> when it does not return. The size is an
  \<^verbatim>\<open>int64\<close>, read as a signed number. An error comes with the file as the call left
  it: unchanged when \<^verbatim>\<open>lseek\<close> fails.
\<close>

definition appendCompressedStreamToFile ::
  "decoders \<Rightarrow> compressedFileType \<Rightarrow> destinationFile \<Rightarrow> int64
   \<Rightarrow> ((fileError \<times> destinationFile) + destinationFile) option" where
  "appendCompressedStreamToFile c compression destFile sz =
     (case compression of
        fileTypeZstdChunked \<Rightarrow> Some (copyLimited (copyBuffer c) (zstdReader c) (sint sz) destFile)
      | fileTypeEstargz \<Rightarrow> Some (copyLimited (copyBuffer c) (gzipReader c) (sint sz) destFile)
      | fileTypeNoCompression \<Rightarrow> Some (copyLimited (copyBuffer c) (rawReader c) (sint sz) destFile)
      | fileTypeHole \<Rightarrow>
          (case appendHole destFile (sint sz) of
             Inl err \<Rightarrow> Some (Inl (err, destFile))
           | Inr d \<Rightarrow>
               (case hash d of
                  None \<Rightarrow> Some (Inr d)
                | Some h \<Rightarrow>
                    (case hashHole h (sint sz) (copyBuffer c) of
                       None \<Rightarrow> None
                     | Some h' \<Rightarrow> Some (Inr (d\<lparr>hash := Some h'\<rparr>))))))"

text \<open>
  The file after a sequence of calls of \<^verbatim>\<open>appendCompressedStreamToFile\<close>, each with
  its decoders, its kind and its size. A call that returns an error leaves the file as
  it is at that moment; the sequence may end there (\<^verbatim>\<open>storeMissingFiles\<close> leaves its
  loop over the chunks and closes the file) or go on. \<open>None\<close> when a call does not
  return to its caller: it loops for ever or it panics.
\<close>

fun appendAll ::
  "(decoders \<times> compressedFileType \<times> int64) list \<Rightarrow> destinationFile \<Rightarrow> destinationFile option" where
  "appendAll [] d = Some d"
| "appendAll ((c, compression, sz) # rest) d =
     (case appendCompressedStreamToFile c compression d sz of
        None \<Rightarrow> None
      | Some (Inl (err, d')) \<Rightarrow>
          (case err of RuntimePanic msg \<Rightarrow> None | _ \<Rightarrow> appendAll rest d')
      | Some (Inr d') \<Rightarrow> appendAll rest d')"

text \<open>
  A world in which every system call succeeds, with the given digest parser and digest
  function.
\<close>

definition quietWorld :: "(string \<Rightarrow> bool) \<Rightarrow> (byte list \<Rightarrow> string) \<Rightarrow> world" where
  "quietWorld valid dig =
     \<lparr>validDigest = valid, digestOf = dig, openFileUnderRoot = (\<lambda>name. None),
      setFileAttrs = (\<lambda>d. None), reopenFileReadOnly = (\<lambda>d. None), closeFile = (\<lambda>d. None),
      recordFsVerity = (\<lambda>name. None)\<rparr>"

section \<open>Properties of the request planner\<close>

declare sameFileLoop.simps [simp del] costLoop.simps [simp del]

lemma getGap_pair: "0 < i \<Longrightarrow> getGap arr i = getGap [arr ! (i - 1), arr ! i] 1"
  by (simp add: getGap_def)

lemma getCost_pair: "0 < i \<Longrightarrow> getCost arr i = getCost [arr ! (i - 1), arr ! i] 1"
  by (simp add: getCost_def getGap_def Let_def)

lemma sameFileLoop_coalesce:
  "prevIndex < i \<Longrightarrow> i \<le> length arr \<Longrightarrow>
   map_sum (\<lambda>p. p) (\<lambda>(arr', k). take (Suc k) arr') (sameFileLoop arr prevIndex i)
     = map_sum (\<lambda>p. p) (\<lambda>out. take prevIndex arr @ out)
         (coalesceSame (arr ! prevIndex) (arr ! (i - 1)) (drop i arr))"
proof (induction arr prevIndex i rule: sameFileLoop.induct)
  case (1 arr prevIndex i)
  show ?case
  proof (cases "i < length arr")
    case False
    with 1(3,4) have "i = length arr" by simp
    with 1(3) show ?thesis
      by (subst sameFileLoop.simps) (simp add: take_Suc_conv_app_nth)
  next
    case True
    let ?gap = "getGap arr i"
    have dr: "drop i arr = arr ! i # drop (Suc i) arr"
      using True by (simp add: Cons_nth_drop_Suc)
    have gp: "getGap [arr ! (i - 1), arr ! i] 1 = ?gap"
      using 1(3) by (simp add: getGap_pair [of i arr])
    show ?thesis
    proof (cases "sameFileCond ?gap (arr ! prevIndex) (arr ! i)")
      case (Inl p)
      then show ?thesis using True dr gp by (subst sameFileLoop.simps) (simp add: Let_def)
    next
      case (Inr b)
      show ?thesis
      proof (cases b)
        case True
        with Inr have b: "sameFileCond ?gap (arr ! prevIndex) (arr ! i) = Inr True" by simp
        let ?arr' = "arr[prevIndex := mergeSameFile (arr ! prevIndex) ?gap (arr ! i)]"
        have ih: "map_sum (\<lambda>p. p) (\<lambda>(arr', k). take (Suc k) arr') (sameFileLoop ?arr' prevIndex (i + 1))
          = map_sum (\<lambda>p. p) (\<lambda>out. take prevIndex ?arr' @ out)
             (coalesceSame (?arr' ! prevIndex) (?arr' ! (i + 1 - 1)) (drop (i + 1) ?arr'))"
          using 1(1) [OF \<open>i < length arr\<close> refl b refl] 1(3) \<open>i < length arr\<close> by simp
        have "sameFileLoop arr prevIndex i = sameFileLoop ?arr' prevIndex (i + 1)"
          using \<open>i < length arr\<close> b by (subst sameFileLoop.simps) (simp add: Let_def)
        moreover have "?arr' ! prevIndex = mergeSameFile (arr ! prevIndex) ?gap (arr ! i)"
          using 1(3) \<open>i < length arr\<close> by simp
        moreover have "?arr' ! (i + 1 - 1) = arr ! i" using 1(3) by simp
        moreover have "drop (i + 1) ?arr' = drop (Suc i) arr" using 1(3) by simp
        moreover have "take prevIndex ?arr' = take prevIndex arr" by simp
        ultimately show ?thesis using ih dr gp b by (simp add: Let_def)
      next
        case False
        with Inr have b: "sameFileCond ?gap (arr ! prevIndex) (arr ! i) = Inr False" by simp
        let ?arr' = "arr[prevIndex + 1 := arr ! i]"
        have ih: "map_sum (\<lambda>p. p) (\<lambda>(arr', k). take (Suc k) arr') (sameFileLoop ?arr' (prevIndex + 1) (i + 1))
          = map_sum (\<lambda>p. p) (\<lambda>out. take (prevIndex + 1) ?arr' @ out)
             (coalesceSame (?arr' ! (prevIndex + 1)) (?arr' ! (i + 1 - 1)) (drop (i + 1) ?arr'))"
          using 1(2) [OF \<open>i < length arr\<close> refl b refl] 1(3) \<open>i < length arr\<close> by simp
        have "sameFileLoop arr prevIndex i = sameFileLoop ?arr' (prevIndex + 1) (i + 1)"
          using \<open>i < length arr\<close> b by (subst sameFileLoop.simps) (simp add: Let_def)
        moreover have "?arr' ! (prevIndex + 1) = arr ! i"
          using 1(3) \<open>i < length arr\<close> by simp
        moreover have "?arr' ! (i + 1 - 1) = arr ! i"
          using 1(3) \<open>i < length arr\<close> by (cases "prevIndex + 1 = i") simp_all
        moreover have "drop (i + 1) ?arr' = drop (Suc i) arr" using 1(3) by simp
        moreover have "take (prevIndex + 1) ?arr' = take prevIndex arr @ [arr ! prevIndex]"
          using 1(3) \<open>i < length arr\<close> by (simp add: take_Suc_conv_app_nth)
        ultimately show ?thesis using ih dr gp b
          by (cases "coalesceSame (arr ! i) (arr ! i) (drop (Suc i) arr)") (simp_all add: Let_def)
      qed
    qed
  qed
qed

lemma sameFilePass_coalesce: "sameFilePass (p # ps) = coalesceSame p p ps"
proof -
  have "map_sum (\<lambda>p. p) (\<lambda>(arr', k). take (Suc k) arr') (sameFileLoop (p # ps) 0 1)
     = map_sum (\<lambda>p. p) (\<lambda>out. take 0 (p # ps) @ out) (coalesceSame ((p # ps) ! 0) ((p # ps) ! (1 - 1)) (drop 1 (p # ps)))"
    by (rule sameFileLoop_coalesce) simp_all
  then show ?thesis
    by (cases "sameFileLoop (p # ps) 0 1"; cases "coalesceSame p p ps") (auto simp: sameFilePass_def)
qed


lemma take_last_slot:
  "0 < n \<Longrightarrow> n \<le> length arr \<Longrightarrow> take n arr = take (n - 1) arr @ [arr ! (n - 1)]"
  by (cases n) (simp_all add: take_Suc_conv_app_nth)

lemma costLoop_absorbRun:
  "0 < n \<Longrightarrow> n \<le> i \<Longrightarrow> i \<le> length arr \<Longrightarrow>
   (case costLoop tv arr n i of (arr', k) \<Rightarrow> take k arr')
     = take (n - 1) arr @ absorbRun tv (arr ! (n - 1)) (arr ! (i - 1)) (drop i arr)"
proof (induction tv arr n i rule: costLoop.induct)
  case (1 tv arr n i)
  show ?case
  proof (cases "i < length arr")
    case False
    with 1(5) have "i = length arr" by simp
    with 1(3,4) show ?thesis
      by (subst costLoop.simps) (simp add: take_last_slot)
  next
    case True
    have dr: "drop i arr = arr ! i # drop (Suc i) arr"
      using True by (simp add: Cons_nth_drop_Suc)
    have gp: "getGap [arr ! (i - 1), arr ! i] 1 = getGap arr i"
      using 1(3,4) by (simp add: getGap_pair [of i arr])
    have cp: "getCost [arr ! (i - 1), arr ! i] 1 = getCost arr i"
      using 1(3,4) by (simp add: getCost_pair [of i arr])
    show ?thesis
    proof (cases "tv <s getCost arr i")
      case above: True
      let ?arr' = "arr[n := arr ! i]"
      have ih: "(case costLoop tv ?arr' (n + 1) (i + 1) of (arr', k) \<Rightarrow> take k arr')
          = take (n + 1 - 1) ?arr' @ absorbRun tv (?arr' ! (n + 1 - 1)) (?arr' ! (i + 1 - 1)) (drop (i + 1) ?arr')"
        using 1(1) [OF True above] 1(3,4) True by simp
      have "costLoop tv arr n i = costLoop tv ?arr' (n + 1) (i + 1)"
        using True above by (subst costLoop.simps) simp
      moreover have "?arr' ! (n + 1 - 1) = arr ! i" using 1(4) True by simp
      moreover have "?arr' ! (i + 1 - 1) = arr ! i"
        using 1(4) True by (cases "n = i") simp_all
      moreover have "drop (i + 1) ?arr' = drop (Suc i) arr" using 1(4) by simp
      moreover have "take (n + 1 - 1) ?arr' = take (n - 1) arr @ [arr ! (n - 1)]"
        using 1(3,4) True by (simp add: take_last_slot)
      ultimately show ?thesis using ih dr cp above by simp
    next
      case below: False
      let ?arr' = "arr[n - 1 := absorb (arr ! (n - 1)) (getGap arr i) (arr ! i)]"
      have ih: "(case costLoop tv ?arr' n (i + 1) of (arr', k) \<Rightarrow> take k arr')
          = take (n - 1) ?arr' @ absorbRun tv (?arr' ! (n - 1)) (?arr' ! (i + 1 - 1)) (drop (i + 1) ?arr')"
        using 1(2) [OF True below refl] 1(3,4) True by simp
      have "costLoop tv arr n i = costLoop tv ?arr' n (i + 1)"
        using True below by (subst costLoop.simps) (simp add: Let_def)
      moreover have "?arr' ! (n - 1) = absorb (arr ! (n - 1)) (getGap arr i) (arr ! i)"
        using 1(3,4) True by simp
      moreover have "?arr' ! (i + 1 - 1) = arr ! i" using 1(3,4) by simp
      moreover have "drop (i + 1) ?arr' = drop (Suc i) arr" using 1(3,4) by simp
      moreover have "take (n - 1) ?arr' = take (n - 1) arr" by simp
      ultimately show ?thesis using ih dr cp gp below by simp
    qed
  qed
qed

lemma costPass_absorbRun: "costPass tv (p # ps) = absorbRun tv p p ps"
  using costLoop_absorbRun [of 1 1 "p # ps" tv] by (simp add: costPass_def)


lemma getGap_two:
  "getGap [p, c] 1 = Offset (SourceChunk c) - endOf p"
  "getGap [p, c] (Suc 0) = Offset (SourceChunk c) - endOf p"
  by (simp_all add: getGap_def endOf_def)

lemma coalesceSame_end_cong:
  "endOf p = endOf q \<Longrightarrow> coalesceSame cur p rest = coalesceSame cur q rest"
  by (cases rest) (simp_all add: getGap_two)

lemma endOf_mergeSameFile:
  assumes "endOf cur = endOf porig"
  shows "endOf (mergeSameFile cur (getGap [porig, c] 1) c) = endOf c"
proof -
  have "endOf (mergeSameFile cur g c) = endOf cur + (g + Length (SourceChunk c))" for g
    by (simp add: mergeSameFile_def endOf_def add.assoc)
  then have "endOf (mergeSameFile cur (getGap [porig, c] 1) c)
      = endOf porig + ((Offset (SourceChunk c) - endOf porig) + Length (SourceChunk c))"
    using assms by (simp add: getGap_two)
  also have "\<dots> = Offset (SourceChunk c) + Length (SourceChunk c)" by simp
  finally show ?thesis by (simp add: endOf_def)
qed

lemma endOf_absorb:
  assumes "endOf cur = endOf porig"
  shows "endOf (absorb cur (getGap [porig, c] 1) c) = endOf c"
proof -
  have "endOf (absorb cur g c) = endOf cur + (g + Length (SourceChunk c))" for g
    by (simp add: absorb_def endOf_def add.assoc)
  then have "endOf (absorb cur (getGap [porig, c] 1) c)
      = endOf porig + ((Offset (SourceChunk c) - endOf porig) + Length (SourceChunk c))"
    using assms by (simp add: getGap_two)
  also have "\<dots> = Offset (SourceChunk c) + Length (SourceChunk c)" by simp
  finally show ?thesis by (simp add: endOf_def)
qed

lemma mergeSameFile_keeps:
  "Offset (SourceChunk (mergeSameFile cur g c)) = Offset (SourceChunk cur)"
  "OriginFile (mergeSameFile cur g c) = OriginFile cur"
  "Hole (mergeSameFile cur g c) = Hole cur"
  "length (Chunks (mergeSameFile cur g c)) = length (Chunks cur)"
  "File (Chunks (mergeSameFile cur g c) ! 0) = File (Chunks cur ! 0)"
  by (cases "Chunks cur"; simp add: mergeSameFile_def)+

lemma coalesceSame_hd:
  "coalesceSame cur porig rest = Inr out \<Longrightarrow>
   \<exists>m out'. out = m # out' \<and> Offset (SourceChunk m) = Offset (SourceChunk cur)
      \<and> OriginFile m = OriginFile cur \<and> Hole m = Hole cur
      \<and> length (Chunks m) = length (Chunks cur)
      \<and> File (Chunks m ! 0) = File (Chunks cur ! 0)"
proof (induction rest arbitrary: cur porig out)
  case Nil
  then show ?case by auto
next
  case (Cons c cs)
  let ?gap = "getGap [porig, c] 1"
  show ?case
  proof (cases "sameFileCond ?gap cur c")
    case (Inl p)
    with Cons.prems show ?thesis by (simp add: Let_def)
  next
    case (Inr b)
    show ?thesis
    proof (cases b)
      case True
      with Inr Cons.prems have "coalesceSame (mergeSameFile cur ?gap c) c cs = Inr out"
        by (simp add: Let_def)
      from Cons.IH [OF this] show ?thesis by (simp add: mergeSameFile_keeps)
    next
      case False
      with Inr Cons.prems show ?thesis
        by (cases "coalesceSame c c cs") (auto simp: Let_def)
    qed
  qed
qed

lemma sameFileCond_False_iff:
  "sameFileCond (getGap [x, y] 1) x y = Inr False \<Longrightarrow> \<not> sameFileZeroGap x y"
  by (auto simp: sameFileCond_def sameFileZeroGap_def split: if_splits option.splits)

lemma sameFileZeroGap_cong:
  "endOf x = endOf x' \<Longrightarrow> OriginFile x = OriginFile x' \<Longrightarrow> Hole x = Hole x' \<Longrightarrow>
   length (Chunks x) = length (Chunks x') \<Longrightarrow> File (Chunks x ! 0) = File (Chunks x' ! 0) \<Longrightarrow>
   Offset (SourceChunk y) = Offset (SourceChunk y') \<Longrightarrow> OriginFile y = OriginFile y' \<Longrightarrow>
   Hole y = Hole y' \<Longrightarrow> length (Chunks y) = length (Chunks y') \<Longrightarrow>
   File (Chunks y ! 0) = File (Chunks y' ! 0) \<Longrightarrow>
   sameFileZeroGap x y = sameFileZeroGap x' y'"
  by (simp add: sameFileZeroGap_def getGap_two)

lemma sameFileCond_gap_cong:
  "sameFileCond g x y = Inr False \<Longrightarrow> g = getGap [x, y] 1 \<Longrightarrow> \<not> sameFileZeroGap x y"
  using sameFileCond_False_iff by simp

lemma coalesceSame_successively:
  "endOf cur = endOf porig \<Longrightarrow> coalesceSame cur porig rest = Inr out \<Longrightarrow>
   successively (\<lambda>x y. \<not> sameFileZeroGap x y) out"
proof (induction rest arbitrary: cur porig out)
  case Nil
  then show ?case by auto
next
  case (Cons c cs)
  let ?gap = "getGap [porig, c] 1"
  have gap_eq: "?gap = getGap [cur, c] 1"
    using Cons.prems(1) by (simp add: getGap_two)
  show ?case
  proof (cases "sameFileCond ?gap cur c")
    case (Inl p)
    with Cons.prems show ?thesis by (simp add: Let_def)
  next
    case (Inr b)
    show ?thesis
    proof (cases b)
      case True
      with Inr Cons.prems have "coalesceSame (mergeSameFile cur ?gap c) c cs = Inr out"
        by (simp add: Let_def)
      from Cons.IH [OF endOf_mergeSameFile [OF Cons.prems(1)] this] show ?thesis .
    next
      case False
      with Inr Cons.prems obtain out' where
        out': "coalesceSame c c cs = Inr out'" and out: "out = cur # out'"
        by (cases "coalesceSame c c cs") (auto simp: Let_def)
      from coalesceSame_hd [OF out'] obtain m out'' where
        m: "out' = m # out''" "Offset (SourceChunk m) = Offset (SourceChunk c)"
           "OriginFile m = OriginFile c" "Hole m = Hole c"
           "length (Chunks m) = length (Chunks c)" "File (Chunks m ! 0) = File (Chunks c ! 0)"
        by blast
      have "\<not> sameFileZeroGap cur c"
        using Inr False gap_eq sameFileCond_False_iff [of cur c] by simp
      then have "\<not> sameFileZeroGap cur m"
        using m sameFileZeroGap_cong [of cur cur m c] by simp
      moreover have "successively (\<lambda>x y. \<not> sameFileZeroGap x y) out'"
        using Cons.IH [OF refl out'] .
      ultimately show ?thesis using out m(1) by simp
    qed
  qed
qed


lemma sameFilePass_single: "sameFilePass [a] = Inr [a]"
  by (simp add: sameFilePass_coalesce)

text \<open>
  Claim C2. In the first (same-file) pass, the part at the front and the part after it are
  merged if and only if the gap between them is zero, neither has an origin file, neither
  is a hole, each carries exactly one chunk and both chunks name the same file. The merge
  adds the second part's length to the first part's source-chunk length and sums the
  compressed and the uncompressed sizes of the two chunks; the pass then goes on with the
  merged part at the front. Otherwise the first part is kept as it is and the pass goes
  on from the second. (A chunk without a file, where all the other conditions hold, is
  the nil dereference of the source.)
\<close>

theorem sameFilePass_merges_iff:
  "sameFilePass (a # b # rest) =
     (if getGap [a, b] 1 = 0 \<and> OriginFile a = None \<and> OriginFile b = None
         \<and> \<not> Hole a \<and> \<not> Hole b
         \<and> length (Chunks a) = 1 \<and> length (Chunks b) = 1
      then (case (File (Chunks a ! 0), File (Chunks b ! 0)) of
              (Some f, Some g) \<Rightarrow>
                if Name f = Name g
                then sameFilePass
                  (a\<lparr>SourceChunk := (SourceChunk a)
                        \<lparr>Length := Length (SourceChunk a) + Length (SourceChunk b)\<rparr>,
                     Chunks := [(Chunks a ! 0)
                        \<lparr>CompressedSize := CompressedSize (Chunks a ! 0) + CompressedSize (Chunks b ! 0),
                         UncompressedSize := UncompressedSize (Chunks a ! 0) + UncompressedSize (Chunks b ! 0)\<rparr>]\<rparr>
                   # rest)
                else (case sameFilePass (b # rest) of Inl p \<Rightarrow> Inl p | Inr out \<Rightarrow> Inr (a # out))
            | _ \<Rightarrow> Inl NilPointerDereference)
      else (case sameFilePass (b # rest) of Inl p \<Rightarrow> Inl p | Inr out \<Rightarrow> Inr (a # out)))"
proof -
  let ?gap = "getGap [a, b] 1"
  let ?m = "mergeSameFile a ?gap b"
  have step: "sameFilePass (a # b # rest) =
      (case sameFileCond ?gap a b of
         Inl p \<Rightarrow> Inl p
       | Inr True \<Rightarrow> sameFilePass (?m # rest)
       | Inr False \<Rightarrow> (case sameFilePass (b # rest) of Inl p \<Rightarrow> Inl p | Inr out \<Rightarrow> Inr (a # out)))"
  proof -
    have "coalesceSame ?m b rest = coalesceSame ?m ?m rest"
      by (rule coalesceSame_end_cong [symmetric]) (rule endOf_mergeSameFile [OF refl])
    then show ?thesis
      by (simp add: sameFilePass_coalesce Let_def split: sum.splits bool.splits)
  qed
  have m: "?gap = 0 \<Longrightarrow> length (Chunks a) = 1 \<Longrightarrow> ?m =
      a\<lparr>SourceChunk := (SourceChunk a)
            \<lparr>Length := Length (SourceChunk a) + Length (SourceChunk b)\<rparr>,
         Chunks := [(Chunks a ! 0)
            \<lparr>CompressedSize := CompressedSize (Chunks a ! 0) + CompressedSize (Chunks b ! 0),
             UncompressedSize := UncompressedSize (Chunks a ! 0) + UncompressedSize (Chunks b ! 0)\<rparr>]\<rparr>"
    by (cases "Chunks a") (simp_all add: mergeSameFile_def)
  show ?thesis
    unfolding step using m
    by (auto simp: sameFileCond_def split: option.splits)
qed


lemma absorb_keeps:
  "Offset (SourceChunk (absorb cur g c)) = Offset (SourceChunk cur)"
  "OriginFile (absorb cur g c) = None"
  "Hole (absorb cur g c) = False"
  "Chunks (absorb cur g c) = Chunks cur @ (if 0 <s g then [gapFile g] else []) @ Chunks c"
  by (simp_all add: absorb_def)

lemma absorbRun_hd:
  "\<exists>m out'. absorbRun tv cur porig rest = m # out' \<and> prefix (Chunks cur) (Chunks m)
     \<and> (m = cur \<or> (\<not> Hole m \<and> OriginFile m = None))
     \<and> (\<not> Hole cur \<and> OriginFile cur = None \<longrightarrow> \<not> Hole m \<and> OriginFile m = None)"
proof (induction rest arbitrary: cur porig)
  case Nil
  show ?case by simp
next
  case (Cons c cs)
  show ?case
  proof (cases "tv <s getCost [porig, c] 1")
    case True
    then show ?thesis by simp
  next
    case False
    let ?cur' = "absorb cur (getGap [porig, c] 1) c"
    from Cons.IH [of ?cur' c] obtain m out' where
      m: "absorbRun tv ?cur' c cs = m # out'" "prefix (Chunks ?cur') (Chunks m)"
         "m = ?cur' \<or> (\<not> Hole m \<and> OriginFile m = None)"
      by blast
    have "prefix (Chunks cur) (Chunks ?cur')" by (simp add: absorb_keeps)
    then have "prefix (Chunks cur) (Chunks m)" using m(2) by (rule prefix_order.trans)
    moreover have "\<not> Hole m \<and> OriginFile m = None" using m(3) by (auto simp: absorb_keeps)
    ultimately show ?thesis using False m(1) by simp
  qed
qed

lemma absorbRun_merged:
  assumes "suffix (Chunks a) (Chunks cur)" and "\<not> tv <s getCost [a, b] 1"
  shows "\<exists>m \<in> set (absorbRun tv cur a (b # post)). \<not> Hole m \<and> OriginFile m = None
     \<and> sublist (Chunks a @ (if 0 <s getGap [a, b] 1 then [gapFile (getGap [a, b] 1)] else []) @ Chunks b)
         (Chunks m)"
proof -
  let ?g = "getGap [a, b] 1"
  let ?mid = "Chunks a @ (if 0 <s ?g then [gapFile ?g] else []) @ Chunks b"
  let ?cur' = "absorb cur ?g b"
  from assms(1) obtain zs where zs: "Chunks cur = zs @ Chunks a" by (auto simp: suffix_def)
  from absorbRun_hd [of tv ?cur' b post] obtain m out' where
    m: "absorbRun tv ?cur' b post = m # out'" "prefix (Chunks ?cur') (Chunks m)"
       "\<not> Hole ?cur' \<and> OriginFile ?cur' = None \<longrightarrow> \<not> Hole m \<and> OriginFile m = None"
    by blast
  from m(2) obtain ys where "Chunks m = Chunks ?cur' @ ys" by (auto simp: prefix_def)
  then have "Chunks m = zs @ ?mid @ ys" using zs by (simp add: absorb_keeps)
  then have "sublist ?mid (Chunks m)" unfolding sublist_def by blast
  moreover have "\<not> Hole m \<and> OriginFile m = None" using m(3) by (simp add: absorb_keeps)
  moreover have "m \<in> set (absorbRun tv cur a (b # post))" using assms(2) m(1) by simp
  ultimately show ?thesis by blast
qed

lemma absorbRun_merged_anywhere:
  assumes "\<not> tv <s getCost [a, b] 1"
  shows "\<exists>m \<in> set (absorbRun tv cur porig (pre @ a # b # post)). \<not> Hole m \<and> OriginFile m = None
     \<and> sublist (Chunks a @ (if 0 <s getGap [a, b] 1 then [gapFile (getGap [a, b] 1)] else []) @ Chunks b)
         (Chunks m)"
proof (induction pre arbitrary: cur porig)
  case Nil
  show ?case
  proof (cases "tv <s getCost [porig, a] 1")
    case True
    then show ?thesis using absorbRun_merged [OF suffix_order.refl assms, of post] by auto
  next
    case False
    have "suffix (Chunks a) (Chunks (absorb cur (getGap [porig, a] 1) a))"
      by (simp add: absorb_keeps suffix_def)
    from absorbRun_merged [OF this assms, of post] show ?thesis using False by simp
  qed
next
  case (Cons x pre)
  show ?case
  proof (cases "tv <s getCost [porig, x] 1")
    case True
    then show ?thesis using Cons.IH [of x x] by auto
  next
    case False
    then show ?thesis using Cons.IH [of "absorb cur (getGap [porig, x] 1) x" x] by simp
  qed
qed

lemma costPass_merged:
  assumes "\<not> tv <s getCost [a, b] 1"
  shows "\<exists>m \<in> set (costPass tv (pre @ a # b # post)). \<not> Hole m \<and> OriginFile m = None
     \<and> sublist (Chunks a @ (if 0 <s getGap [a, b] 1 then [gapFile (getGap [a, b] 1)] else []) @ Chunks b)
         (Chunks m)"
proof (cases pre)
  case Nil
  then show ?thesis
    using absorbRun_merged [OF suffix_order.refl assms, of post] by (simp add: costPass_absorbRun)
next
  case (Cons x pre')
  then show ?thesis
    using absorbRun_merged_anywhere [OF assms, of x x pre' post] by (simp add: costPass_absorbRun)
qed


lemma absorbRun_hd_chunks:
  "Chunks cur \<noteq> [] \<Longrightarrow> \<forall>p\<in>set rest. Chunks p \<noteq> [] \<Longrightarrow>
   \<exists>m out'. absorbRun tv cur porig rest = m # out' \<and> (m = cur \<or> 2 \<le> length (Chunks m))"
proof (induction rest arbitrary: cur porig)
  case Nil
  show ?case by simp
next
  case (Cons c cs)
  show ?case
  proof (cases "tv <s getCost [porig, c] 1")
    case True
    then show ?thesis by simp
  next
    case False
    let ?cur' = "absorb cur (getGap [porig, c] 1) c"
    have two: "2 \<le> length (Chunks ?cur')"
      using Cons.prems by (cases "Chunks cur"; cases "Chunks c") (simp_all add: absorb_keeps)
    then have ne: "Chunks ?cur' \<noteq> []" by auto
    have cs: "\<forall>p\<in>set cs. Chunks p \<noteq> []" using Cons.prems(2) by simp
    from Cons.IH [OF ne cs, where porig = c] obtain m out' where
      m: "absorbRun tv ?cur' c cs = m # out'" "m = ?cur' \<or> 2 \<le> length (Chunks m)"
      by blast
    then show ?thesis using False two by auto
  qed
qed

lemma absorbRun_successively:
  assumes "cur = porig \<or> 2 \<le> length (Chunks cur)" and "Chunks cur \<noteq> []"
    and "\<forall>p\<in>set rest. Chunks p \<noteq> []"
    and "successively (\<lambda>x y. \<not> sameFileZeroGap x y) (porig # rest)"
  shows "successively (\<lambda>x y. \<not> sameFileZeroGap x y) (absorbRun tv cur porig rest)"
  using assms
proof (induction rest arbitrary: cur porig)
  case Nil
  show ?case by simp
next
  case (Cons c cs)
  have tl: "successively (\<lambda>x y. \<not> sameFileZeroGap x y) (c # cs)"
    and hd: "\<not> sameFileZeroGap porig c"
    using Cons.prems(4) by simp_all
  have c: "Chunks c \<noteq> []" and cs: "\<forall>p\<in>set cs. Chunks p \<noteq> []"
    using Cons.prems(3) by simp_all
  show ?case
  proof (cases "tv <s getCost [porig, c] 1")
    case True
    have ih: "successively (\<lambda>x y. \<not> sameFileZeroGap x y) (absorbRun tv c c cs)"
      using Cons.IH [of c c] c cs tl by simp
    from absorbRun_hd_chunks [OF c cs] obtain m out' where
      m: "absorbRun tv c c cs = m # out'" "m = c \<or> 2 \<le> length (Chunks m)"
      by blast
    have "\<not> sameFileZeroGap cur m"
      using m(2) Cons.prems(1) hd by (auto simp: sameFileZeroGap_def)
    then show ?thesis using True ih m(1) by simp
  next
    case False
    let ?cur' = "absorb cur (getGap [porig, c] 1) c"
    have two: "2 \<le> length (Chunks ?cur')"
      using Cons.prems(2) c by (cases "Chunks cur"; cases "Chunks c") (simp_all add: absorb_keeps)
    then have ne: "Chunks ?cur' \<noteq> []" by auto
    show ?thesis using False Cons.IH [of ?cur' c] two ne cs tl by simp
  qed
qed

lemma getCost_Cons: "0 < i \<Longrightarrow> getCost (x # xs) (Suc i) = getCost xs i"
  by (cases i) (simp_all add: getCost_def getGap_def Let_def)

lemma costs_Cons:
  "map (getCost (p # c # cs)) [1..<Suc (Suc (length cs))]
     = getCost [p, c] 1 # map (getCost (c # cs)) [1..<Suc (length cs)]"
proof -
  have "[1..<Suc (Suc (length cs))] = 1 # map Suc [1..<Suc (length cs)]"
    by (simp add: upt_conv_Cons map_Suc_upt del: upt_Suc)
  moreover have "getCost (p # c # cs) 1 = getCost [p, c] 1"
    by (simp add: getCost_def getGap_def Let_def)
  moreover have "map (getCost (p # c # cs) \<circ> Suc) [1..<Suc (length cs)]
      = map (getCost (c # cs)) [1..<Suc (length cs)]"
  proof (rule map_cong [OF refl])
    fix x assume "x \<in> set [1..<Suc (length cs)]"
    then have "0 < x" unfolding set_upt by simp
    then show "(getCost (p # c # cs) \<circ> Suc) x = getCost (c # cs) x"
      by (simp add: getCost_Cons)
  qed
  ultimately show ?thesis by simp
qed

lemma absorbRun_length:
  "length (absorbRun tv cur porig rest)
     = Suc (length (filter (\<lambda>c. tv <s c) (map (getCost (porig # rest)) [1..<Suc (length rest)])))"
proof (induction rest arbitrary: cur porig)
  case Nil
  show ?case by simp
next
  case (Cons c cs)
  show ?case
    unfolding length_Cons costs_Cons
    by (simp add: Cons.IH)
qed

lemma sort_key_nth_filter:
  assumes "k < length xs"
  shows "length (filter (\<lambda>c. sort_key sint xs ! k <s c) xs) \<le> length xs - Suc k"
proof -
  let ?s = "sort_key sint xs"
  let ?P = "\<lambda>c. ?s ! k <s c"
  have "length (filter ?P xs) = length (sort_key sint (filter ?P xs))" by simp
  also have "\<dots> = length (filter ?P ?s)" by (simp only: filter_sort)
  also have "\<dots> = length (filter ?P (take (Suc k) ?s)) + length (filter ?P (drop (Suc k) ?s))"
    by (simp only: filter_append [symmetric] length_append [symmetric] append_take_drop_id)
  also have "filter ?P (take (Suc k) ?s) = []"
  proof -
    have "\<not> ?P x" if "x \<in> set (take (Suc k) ?s)" for x
    proof -
      from that obtain j where j: "j < Suc k" "j < length ?s" "x = ?s ! j"
        by (auto simp: in_set_conv_nth)
      have "sorted (map sint ?s)" by (rule sorted_sort_key)
      then have "map sint ?s ! j \<le> map sint ?s ! k"
        using j(1) assms by (intro sorted_nth_mono) simp_all
      then have "sint (?s ! j) \<le> sint (?s ! k)" using j assms by simp
      then show ?thesis using j(3) by (simp add: word_sless_alt)
    qed
    then show ?thesis by (simp add: filter_empty_conv)
  qed
  also have "length (filter ?P (drop (Suc k) ?s)) \<le> length (drop (Suc k) ?s)"
    by (rule length_filter_le)
  finally show ?thesis by simp
qed

lemma sameFilePass_nonempty: "sameFilePass ps = Inr out \<Longrightarrow> ps \<noteq> [] \<Longrightarrow> out \<noteq> []"
  using coalesceSame_hd by (cases ps) (auto simp: sameFilePass_coalesce)

lemma mergeMissingChunks_length:
  assumes "mergeMissingChunks ps target = Inr out" and "1 \<le> target"
  shows "int (length out) \<le> target"
proof -
  from assms(1) have ne: "ps \<noteq> []" by (auto simp: mergeMissingChunks_def)
  from assms(1) ne obtain P where P: "sameFilePass ps = Inr P"
    by (cases "sameFilePass ps") (auto simp: mergeMissingChunks_def)
  show ?thesis
  proof (cases "int (length P) \<le> target")
    case True
    with assms(1) ne P show ?thesis by (simp add: mergeMissingChunks_def)
  next
    case False
    from sameFilePass_nonempty [OF P ne] obtain p rest where pr: "P = p # rest"
      by (cases P) auto
    let ?raw = "map (getCost P) [1..<length P]"
    let ?costs = "sort_key sint ?raw"
    let ?t0 = "int (length P) - target"
    let ?ts = "if ?t0 \<ge> int (length ?costs) then int (length ?costs) - 1 else ?t0"
    define tv where "tv = ?costs ! nat ?ts"
    have run: "\<not> (?ts < 0 \<or> int (length ?costs) \<le> ?ts)"
      and out: "out = costPass tv P"
      using assms(1) ne P False
      by (auto simp: mergeMissingChunks_def Let_def tv_def split: if_splits)
    have raw: "?raw = map (getCost (p # rest)) [1..<Suc (length rest)]"
      unfolding pr by (simp only: length_Cons)
    have len_costs: "length ?raw = length rest" unfolding pr by (simp del: upt_Suc)
    from run have k: "nat ?ts < length ?raw" by (simp split: if_splits) linarith+
    have "out = absorbRun tv p p rest" using out pr by (simp add: costPass_absorbRun)
    then have "length out
        = Suc (length (filter (\<lambda>c. tv <s c) (map (getCost (p # rest)) [1..<Suc (length rest)])))"
      by (simp only: absorbRun_length)
    then have "length out = Suc (length (filter (\<lambda>c. tv <s c) ?raw))"
      by (simp only: raw)
    also have "\<dots> \<le> Suc (length ?raw - Suc (nat ?ts))"
      using sort_key_nth_filter [OF k] unfolding tv_def by simp
    finally have "int (length out) \<le> 1 + (int (length rest) - 1 - ?ts)"
      using k len_costs run by (simp split: if_splits)
    then show ?thesis using False assms(2) pr by (simp split: if_splits)
  qed
qed

lemma sameFilePass_chunks_nonempty:
  "coalesceSame cur porig rest = Inr out \<Longrightarrow> Chunks cur \<noteq> [] \<Longrightarrow> \<forall>p\<in>set rest. Chunks p \<noteq> [] \<Longrightarrow>
   \<forall>p\<in>set out. Chunks p \<noteq> []"
proof (induction rest arbitrary: cur porig out)
  case Nil
  then show ?case by auto
next
  case (Cons c cs)
  let ?gap = "getGap [porig, c] 1"
  show ?case
  proof (cases "sameFileCond ?gap cur c")
    case (Inl p)
    with Cons.prems show ?thesis by (simp add: Let_def)
  next
    case (Inr b)
    show ?thesis
    proof (cases b)
      case True
      with Inr Cons.prems have "coalesceSame (mergeSameFile cur ?gap c) c cs = Inr out"
        by (simp add: Let_def)
      moreover have "Chunks (mergeSameFile cur ?gap c) \<noteq> []"
        using Cons.prems(2) mergeSameFile_keeps(4) [of cur ?gap c] by auto
      ultimately show ?thesis using Cons.IH Cons.prems(3) by simp
    next
      case False
      with Inr Cons.prems obtain out' where
        out': "coalesceSame c c cs = Inr out'" and out: "out = cur # out'"
        by (cases "coalesceSame c c cs") (auto simp: Let_def)
      from Cons.IH [OF out'] Cons.prems(2,3) out show ?thesis by simp
    qed
  qed
qed

text \<open>
  Claim C9, amended. For every list of missing parts in which each part carries at least
  one chunk, when \<^verbatim>\<open>mergeMissingChunks\<close> returns, no two adjacent parts of its result
  that carry exactly one chunk each target the same file with a zero gap between their
  byte ranges, unless one of the two is a hole or has an origin file.
\<close>

theorem mergeMissingChunks_no_zero_gap_pair:
  assumes "mergeMissingChunks ps target = Inr out"
    and "\<forall>p\<in>set ps. Chunks p \<noteq> []"
    and "Suc j < length out"
  shows "\<not> sameFileZeroGap (out ! j) (out ! Suc j)"
proof -
  from assms(1) have ne: "ps \<noteq> []" by (auto simp: mergeMissingChunks_def)
  then obtain p0 ps' where ps: "ps = p0 # ps'" by (cases ps) auto
  from assms(1) ne obtain P where P: "sameFilePass ps = Inr P"
    by (cases "sameFilePass ps") (auto simp: mergeMissingChunks_def)
  then have co: "coalesceSame p0 p0 ps' = Inr P" by (simp add: ps sameFilePass_coalesce)
  have sP: "successively (\<lambda>x y. \<not> sameFileZeroGap x y) P"
    using coalesceSame_successively [OF refl co] .
  have cP: "\<forall>p\<in>set P. Chunks p \<noteq> []"
    using sameFilePass_chunks_nonempty [OF co] assms(2) ps by simp
  have "successively (\<lambda>x y. \<not> sameFileZeroGap x y) out"
  proof (cases "int (length P) \<le> target")
    case True
    with assms(1) ne P sP show ?thesis by (simp add: mergeMissingChunks_def)
  next
    case False
    from sameFilePass_nonempty [OF P ne] obtain p rest where pr: "P = p # rest"
      by (cases P) auto
    from assms(1) ne P False obtain tv where "out = costPass tv P"
      by (auto simp: mergeMissingChunks_def Let_def split: if_splits)
    then have "out = absorbRun tv p p rest" by (simp add: pr costPass_absorbRun)
    then show ?thesis
      using absorbRun_successively [of p p rest tv] sP cP pr by simp
  qed
  then show ?thesis using assms(3) by (rule successively_nth)
qed


termination retrieveMissingFiles
proof (relation "measure (\<lambda>(GetBlobAt, storeMissingFiles, stream, missingParts). length missingParts)")
  show "wf (measure (\<lambda>(GetBlobAt, storeMissingFiles, stream, missingParts). length missingParts))"
    by simp
next
  fix GetBlobAt :: "'a \<Rightarrow> ImageSourceChunk list \<Rightarrow> (error + 'b) \<times> 'a"
    and storeMissingFiles :: "'b \<Rightarrow> missingPart list \<Rightarrow> error option"
    and stream :: 'a and missingParts :: "missingPart list" and requested :: int
    and missingParts' :: "missingPart list"
  assume "requested = int (length missingParts)" and "\<not> requested < 64"
    and "mergeMissingChunks missingParts (requested div 2) = Inr missingParts'"
  then have "int (length missingParts') \<le> int (length missingParts) div 2"
    and "64 \<le> int (length missingParts)"
    using mergeMissingChunks_length [of missingParts "requested div 2" missingParts'] by simp_all
  then show "((GetBlobAt, storeMissingFiles, stream', missingParts'),
              (GetBlobAt, storeMissingFiles, stream, missingParts))
             \<in> measure (\<lambda>(GetBlobAt, storeMissingFiles, stream, missingParts). length missingParts)"
    for stream' :: 'a
    by simp
qed

declare retrieveMissingFiles.simps [simp del]

text \<open>
  What the loop does when the blob source rejects the request with a bad-range error. The
  floor is tested on the number of parts in the list, requested or not: with fewer than
  64 parts \<^verbatim>\<open>retrieveMissingFiles\<close> returns that error and asks no more; with 64
  parts or more it merges the parts with half their number as the target, the merged
  list has at most that many parts, and it goes on as on the merged list (so it requests
  again, from the source as the rejected request left it).
\<close>

lemma retrieveMissingFiles_bad_range:
  assumes "GetBlobAt stream (calculateChunksToRequest missingParts)
             = (Inl (ErrBadRequest e), stream')"
  shows "(length missingParts < 64 \<longrightarrow>
            retrieveMissingFiles GetBlobAt storeMissingFiles stream missingParts
              = Inr (Some (ErrBadRequest e), stream'))
       \<and> (64 \<le> length missingParts \<longrightarrow>
            (case mergeMissingChunks missingParts (int (length missingParts) div 2) of
               Inl p \<Rightarrow>
                 retrieveMissingFiles GetBlobAt storeMissingFiles stream missingParts = Inl p
             | Inr missingParts' \<Rightarrow>
                 int (length missingParts') \<le> int (length missingParts) div 2
                 \<and> retrieveMissingFiles GetBlobAt storeMissingFiles stream missingParts
                     = retrieveMissingFiles GetBlobAt storeMissingFiles stream' missingParts'))"
proof (intro conjI impI)
  assume "length missingParts < 64"
  then show "retrieveMissingFiles GetBlobAt storeMissingFiles stream missingParts
      = Inr (Some (ErrBadRequest e), stream')"
    using assms by (subst retrieveMissingFiles.simps) simp
next
  assume big: "64 \<le> length missingParts"
  show "case mergeMissingChunks missingParts (int (length missingParts) div 2) of
          Inl p \<Rightarrow> retrieveMissingFiles GetBlobAt storeMissingFiles stream missingParts = Inl p
        | Inr missingParts' \<Rightarrow>
            int (length missingParts') \<le> int (length missingParts) div 2
            \<and> retrieveMissingFiles GetBlobAt storeMissingFiles stream missingParts
                = retrieveMissingFiles GetBlobAt storeMissingFiles stream' missingParts'"
  proof (cases "mergeMissingChunks missingParts (int (length missingParts) div 2)")
    case (Inl p)
    then show ?thesis
      using assms big by (subst retrieveMissingFiles.simps) simp
  next
    case (Inr missingParts')
    have "int (length missingParts') \<le> int (length missingParts) div 2"
      using mergeMissingChunks_length [OF Inr] big by simp
    moreover have "retrieveMissingFiles GetBlobAt storeMissingFiles stream missingParts
        = retrieveMissingFiles GetBlobAt storeMissingFiles stream' missingParts'"
      using assms big Inr by (subst retrieveMissingFiles.simps) simp
    ultimately show ?thesis using Inr by simp
  qed
qed


lemma absorbRun_unchanged_or_remote:
  "(cur = porig \<or> (\<not> Hole cur \<and> OriginFile cur = None)) \<Longrightarrow>
   \<forall>m \<in> set (absorbRun tv cur porig rest). m \<in> set (porig # rest) \<or> (\<not> Hole m \<and> OriginFile m = None)"
proof (induction rest arbitrary: cur porig)
  case Nil
  then show ?case by auto
next
  case (Cons c cs)
  show ?case
  proof (cases "tv <s getCost [porig, c] 1")
    case True
    then show ?thesis using Cons.IH [of c c] Cons.prems by auto
  next
    case False
    then show ?thesis
      using Cons.IH [of "absorb cur (getGap [porig, c] 1) c" c] by (auto simp: absorb_keeps)
  qed
qed

text \<open>
  Claim C10. Whenever the cost-driven pass merges a part \<open>b\<close> into its predecessor (the
  cost of the adjacency is not above the threshold), the result has a part with
  \<^verbatim>\<open>Hole\<close> false and \<^verbatim>\<open>OriginFile\<close> nil whose chunk list contains all the chunks of
  \<open>b\<close>, in their order; that part is fetched from the blob source, whatever \<open>b\<close> and
  its predecessor were before. Every part of the result is either a part of the input,
  unchanged, or such a remote part.
\<close>

theorem costPass_merged_part_is_remote:
  assumes "\<not> targetValue <s getCost [a, b] 1"
  shows "(\<exists>m \<in> set (costPass targetValue (pre @ a # b # post)).
            Hole m = False \<and> OriginFile m = None \<and> sublist (Chunks b) (Chunks m)
            \<and> SourceChunk m \<in> set (calculateChunksToRequest (costPass targetValue (pre @ a # b # post))))
       \<and> (\<forall>m \<in> set (costPass targetValue (pre @ a # b # post)).
            m \<in> set (pre @ a # b # post) \<or> (Hole m = False \<and> OriginFile m = None))"
proof
  let ?out = "costPass targetValue (pre @ a # b # post)"
  let ?g = "if 0 <s getGap [a, b] 1 then [gapFile (getGap [a, b] 1)] else []"
  from costPass_merged [OF assms, of pre post] obtain m where
    m: "m \<in> set ?out" "\<not> Hole m" "OriginFile m = None"
       "sublist (Chunks a @ ?g @ Chunks b) (Chunks m)"
    by blast
  have "sublist (Chunks b) (Chunks a @ ?g @ Chunks b)"
    unfolding sublist_def by (metis append.assoc append_Nil2)
  then have "sublist (Chunks b) (Chunks m)" using m(4) by (rule sublist_order.order.trans)
  moreover have "SourceChunk m \<in> set (calculateChunksToRequest ?out)"
    using m(1,2,3) by (auto simp: calculateChunksToRequest_def)
  ultimately show "\<exists>m \<in> set ?out. Hole m = False \<and> OriginFile m = None
      \<and> sublist (Chunks b) (Chunks m) \<and> SourceChunk m \<in> set (calculateChunksToRequest ?out)"
    using m by blast
next
  obtain p ps where ps: "pre @ a # b # post = p # ps" by (cases pre) auto
  show "\<forall>m \<in> set (costPass targetValue (pre @ a # b # post)).
      m \<in> set (pre @ a # b # post) \<or> (Hole m = False \<and> OriginFile m = None)"
    unfolding ps costPass_absorbRun
    using absorbRun_unchanged_or_remote [of p p targetValue ps] by simp
qed

text \<open>
  Claim C8, amended. In the cost-driven pass, an adjacency that is merged and whose gap is
  positive adds, between the chunks of the two parts, a synthetic gap chunk that records
  the number of bytes to discard; an adjacency that is merged with a gap that is not
  positive adds none, and the chunks of the second part follow those of the first.
\<close>

theorem costPass_gap_chunk_iff_positive:
  assumes "\<not> targetValue <s getCost [a, b] 1"
  shows "\<exists>m \<in> set (costPass targetValue (pre @ a # b # post)).
           sublist
             (Chunks a
              @ (if 0 <s getGap [a, b] 1
                 then [\<lparr>Gap = getGap [a, b] 1, Hole_mf = False, File = None,
                        CompressedSize = 0, UncompressedSize = 0\<rparr>]
                 else [])
              @ Chunks b)
             (Chunks m)"
  using costPass_merged [OF assms, of pre post] by (auto simp: gapFile_def)


lemmas example_defs = remotePart_def fileChunk_def regularFile_def gapFile_def

text \<open>
  The claim at two chunks of one file that follow each other on the blob, and at two
  chunks of different files.
\<close>

theorem sameFilePass_merges_iff_witness:
  "sameFilePass [remotePart (regularFile ''f'') 0 10 12, remotePart (regularFile ''f'') 10 5 6]
     = Inr [remotePart (regularFile ''f'') 0 15 18]
   \<and> sameFilePass [remotePart (regularFile ''f'') 0 10 12, remotePart (regularFile ''g'') 10 5 6]
     = Inr [remotePart (regularFile ''f'') 0 10 12, remotePart (regularFile ''g'') 10 5 6]"
  using sameFilePass_merges_iff
          [of "remotePart (regularFile ''f'') 0 10 12" "remotePart (regularFile ''f'') 10 5 6" "[]"]
        sameFilePass_merges_iff
          [of "remotePart (regularFile ''f'') 0 10 12" "remotePart (regularFile ''g'') 10 5 6" "[]"]
  by (simp add: example_defs getGap_def sameFilePass_single)

text \<open>
  Claim C8 as stated fails where the gap is zero (the source adds the gap chunk under
  \<^verbatim>\<open>if gap > 0\<close>): two chunks of different files that follow each other on the blob
  are merged by the cost-driven pass, and the chunk list of the result has no gap chunk.
\<close>

theorem costPass_zero_gap_adds_no_gap_chunk:
  "mergeMissingChunks
     [remotePart (regularFile ''a'') 0 10 10, remotePart (regularFile ''b'') 10 10 10] 1
   = Inr [\<lparr>Hole = False, SourceChunk = \<lparr>Offset = 0, Length = 20\<rparr>, OriginFile = None,
           Chunks = [fileChunk (regularFile ''a'') 10 10, fileChunk (regularFile ''b'') 10 10]\<rparr>]"
  by (simp add: mergeMissingChunks_def sameFilePass_coalesce costPass_absorbRun sameFileCond_def
        getGap_def getCost_def absorb_def Let_def example_defs)

text \<open>The amended claim at two chunks five bytes apart.\<close>

theorem costPass_gap_chunk_iff_positive_witness:
  "costPass 5 [remotePart (regularFile ''a'') 0 10 10, remotePart (regularFile ''b'') 15 10 10]
     = [\<lparr>Hole = False, SourceChunk = \<lparr>Offset = 0, Length = 25\<rparr>, OriginFile = None,
         Chunks = [fileChunk (regularFile ''a'') 10 10,
                   \<lparr>Gap = 5, Hole_mf = False, File = None, CompressedSize = 0, UncompressedSize = 0\<rparr>,
                   fileChunk (regularFile ''b'') 10 10]\<rparr>]
   \<and> (\<exists>m \<in> set (costPass 5
          [remotePart (regularFile ''a'') 0 10 10, remotePart (regularFile ''b'') 15 10 10]).
        sublist
          [fileChunk (regularFile ''a'') 10 10,
           \<lparr>Gap = 5, Hole_mf = False, File = None, CompressedSize = 0, UncompressedSize = 0\<rparr>,
           fileChunk (regularFile ''b'') 10 10]
          (Chunks m))"
proof -
  have c: "\<not> (5 :: int64) <s getCost
      [remotePart (regularFile ''a'') 0 10 10, remotePart (regularFile ''b'') 15 10 10] 1"
    by (simp add: getCost_def getGap_def Let_def example_defs)
  have g: "getGap [remotePart (regularFile ''a'') 0 10 10, remotePart (regularFile ''b'') 15 10 10] 1 = 5"
    by (simp add: getGap_def example_defs)
  have "costPass 5 [remotePart (regularFile ''a'') 0 10 10, remotePart (regularFile ''b'') 15 10 10]
     = [\<lparr>Hole = False, SourceChunk = \<lparr>Offset = 0, Length = 25\<rparr>, OriginFile = None,
         Chunks = [fileChunk (regularFile ''a'') 10 10,
                   \<lparr>Gap = 5, Hole_mf = False, File = None, CompressedSize = 0, UncompressedSize = 0\<rparr>,
                   fileChunk (regularFile ''b'') 10 10]\<rparr>]"
    by (simp add: costPass_absorbRun getGap_def getCost_def absorb_def Let_def example_defs
          word_sless_alt)
  moreover from costPass_gap_chunk_iff_positive [OF c, of "[]" "[]"]
  have "\<exists>m \<in> set (costPass 5
          [remotePart (regularFile ''a'') 0 10 10, remotePart (regularFile ''b'') 15 10 10]).
        sublist
          [fileChunk (regularFile ''a'') 10 10,
           \<lparr>Gap = 5, Hole_mf = False, File = None, CompressedSize = 0, UncompressedSize = 0\<rparr>,
           fileChunk (regularFile ''b'') 10 10]
          (Chunks m)"
    unfolding g by (simp add: remotePart_def word_sless_alt)
  ultimately show ?thesis by blast
qed


text \<open>
  Claim C9 as stated fails for parts with more than one chunk, which the first pass never
  merges: here two adjacent parts, every chunk of which is for the file \<open>f\<close>, with no
  gap between their ranges, neither a hole nor with an origin file, are returned as they
  are. Lists with such parts reach the planner when \<^verbatim>\<open>retrieveMissingFiles\<close> merges
  again after a rejected request.
\<close>

theorem multi_chunk_parts_keep_zero_gap:
  "mergeMissingChunks
     [\<lparr>Hole = False, SourceChunk = \<lparr>Offset = 0, Length = 20\<rparr>, OriginFile = None,
       Chunks = [fileChunk (regularFile ''f'') 10 10, fileChunk (regularFile ''f'') 10 10]\<rparr>,
      remotePart (regularFile ''f'') 20 10 10] 1024
   = Inr [\<lparr>Hole = False, SourceChunk = \<lparr>Offset = 0, Length = 20\<rparr>, OriginFile = None,
           Chunks = [fileChunk (regularFile ''f'') 10 10, fileChunk (regularFile ''f'') 10 10]\<rparr>,
          remotePart (regularFile ''f'') 20 10 10]
   \<and> getGap
        [\<lparr>Hole = False, SourceChunk = \<lparr>Offset = 0, Length = 20\<rparr>, OriginFile = None,
          Chunks = [fileChunk (regularFile ''f'') 10 10, fileChunk (regularFile ''f'') 10 10]\<rparr>,
         remotePart (regularFile ''f'') 20 10 10] 1 = 0
   \<and> Hole (remotePart (regularFile ''f'') 20 10 10) = False
   \<and> OriginFile (remotePart (regularFile ''f'') 20 10 10) = None
   \<and> map (\<lambda>c. map_option Name (File c))
        [fileChunk (regularFile ''f'') 10 10, fileChunk (regularFile ''f'') 10 10,
         fileChunk (regularFile ''f'') 10 10]
      = [Some ''f'', Some ''f'', Some ''f'']"
  by (simp add: mergeMissingChunks_def sameFilePass_coalesce sameFileCond_def
        getGap_def Let_def example_defs)

text \<open>The amended claim at two adjacent chunks of different files.\<close>

theorem mergeMissingChunks_no_zero_gap_pair_witness:
  "mergeMissingChunks
     [remotePart (regularFile ''f'') 0 10 10, remotePart (regularFile ''g'') 10 10 10] 1024
   = Inr [remotePart (regularFile ''f'') 0 10 10, remotePart (regularFile ''g'') 10 10 10]
   \<and> \<not> sameFileZeroGap (remotePart (regularFile ''f'') 0 10 10)
         (remotePart (regularFile ''g'') 10 10 10)"
proof -
  let ?ps = "[remotePart (regularFile ''f'') 0 10 10, remotePart (regularFile ''g'') 10 10 10]"
  have m: "mergeMissingChunks ?ps 1024 = Inr ?ps"
    by (simp add: mergeMissingChunks_def sameFilePass_coalesce sameFileCond_def
          getGap_def Let_def example_defs)
  have c: "\<forall>p \<in> set ?ps. Chunks p \<noteq> []" by (simp add: example_defs)
  from mergeMissingChunks_no_zero_gap_pair [OF m c, of 0] m show ?thesis by simp
qed

text \<open>
  The claim at a chunk found in another layer (it has an origin file) that is merged
  into the remote chunk before it.
\<close>

theorem costPass_merged_part_is_remote_witness:
  "costPass 10
     [remotePart (regularFile ''a'') 0 10 10,
      (remotePart (regularFile ''b'') 10 10 10)
        \<lparr>OriginFile := Some \<lparr>Root = ''/layers/1'', Path = ''b'', Offset_of = 0\<rparr>\<rparr>]
   = [\<lparr>Hole = False, SourceChunk = \<lparr>Offset = 0, Length = 20\<rparr>, OriginFile = None,
       Chunks = [fileChunk (regularFile ''a'') 10 10, fileChunk (regularFile ''b'') 10 10]\<rparr>]
   \<and> (\<exists>m \<in> set (costPass 10
          [remotePart (regularFile ''a'') 0 10 10,
           (remotePart (regularFile ''b'') 10 10 10)
             \<lparr>OriginFile := Some \<lparr>Root = ''/layers/1'', Path = ''b'', Offset_of = 0\<rparr>\<rparr>]).
        Hole m = False \<and> OriginFile m = None
        \<and> sublist [fileChunk (regularFile ''b'') 10 10] (Chunks m))"
proof -
  let ?a = "remotePart (regularFile ''a'') 0 10 10"
  let ?b = "(remotePart (regularFile ''b'') 10 10 10)
        \<lparr>OriginFile := Some \<lparr>Root = ''/layers/1'', Path = ''b'', Offset_of = 0\<rparr>\<rparr>"
  have c: "\<not> (10 :: int64) <s getCost [?a, ?b] 1"
    by (simp add: getCost_def getGap_def Let_def example_defs)
  have "costPass 10 [?a, ?b]
     = [\<lparr>Hole = False, SourceChunk = \<lparr>Offset = 0, Length = 20\<rparr>, OriginFile = None,
         Chunks = [fileChunk (regularFile ''a'') 10 10, fileChunk (regularFile ''b'') 10 10]\<rparr>]"
    by (simp add: costPass_absorbRun getGap_def getCost_def absorb_def Let_def example_defs
          word_sless_alt)
  moreover from costPass_merged_part_is_remote [OF c, of "[]" "[]"]
  have "\<exists>m \<in> set (costPass 10 [?a, ?b]).
        Hole m = False \<and> OriginFile m = None
        \<and> sublist [fileChunk (regularFile ''b'') 10 10] (Chunks m)"
    by (auto simp: remotePart_def)
  ultimately show ?thesis by blast
qed

text \<open>
  Holes are never merged by the first loop, and a run of holes of no length on the blob,
  all at the end of the part before them, is absorbed whole by the second loop when the
  threshold is not below zero: such parts cost nothing.
\<close>

lemma coalesceSame_holes:
  "Hole h \<Longrightarrow> coalesceSame cur porig (replicate n h) = Inr (cur # replicate n h)"
proof (induction n arbitrary: cur porig)
  case 0
  show ?case by simp
next
  case (Suc n)
  have "sameFileCond gap cur h = Inr False" for gap
    using Suc.prems by (simp add: sameFileCond_def)
  then show ?case using Suc.IH [OF Suc.prems, of h h] by (simp add: Let_def)
qed

lemma absorb_hole_of_no_length:
  assumes "Length (SourceChunk h) = 0" and "\<not> Hole cur" and "OriginFile cur = None"
  shows "absorb cur 0 h = cur\<lparr>Chunks := Chunks cur @ Chunks h\<rparr>"
  using assms by (cases cur, cases "SourceChunk cur") (simp add: absorb_def)

lemma absorbRun_holes:
  assumes "\<not> tv <s getCost [h, h] 1" and "getGap [h, h] 1 = 0" and "Length (SourceChunk h) = 0"
  shows "\<not> tv <s getCost [porig, h] 1 \<Longrightarrow> getGap [porig, h] 1 = 0
     \<Longrightarrow> \<not> Hole cur \<Longrightarrow> OriginFile cur = None
     \<Longrightarrow> absorbRun tv cur porig (replicate n h)
         = [cur\<lparr>Chunks := Chunks cur @ concat (replicate n (Chunks h))\<rparr>]"
proof (induction n arbitrary: cur porig)
  case 0
  show ?case by simp
next
  case (Suc n)
  let ?cur = "cur\<lparr>Chunks := Chunks cur @ Chunks h\<rparr>"
  have "absorbRun tv cur porig (replicate (Suc n) h) = absorbRun tv ?cur h (replicate n h)"
    using Suc.prems assms(3) by (simp add: absorb_hole_of_no_length)
  also have "\<dots> = [?cur\<lparr>Chunks := Chunks ?cur @ concat (replicate n (Chunks h))\<rparr>]"
    using Suc.IH [of h ?cur] assms(1,2) Suc.prems(3,4) by simp
  finally show ?case by simp
qed

lemma costs_of_holes:
  assumes "getCost [p, h] 1 = 0" and "getCost [h, h] 1 = 0" and "k < n"
  shows "sort_key sint (map (getCost (p # replicate n h)) [1..<length (p # replicate n h)]) ! k = 0"
proof -
  let ?arr = "p # replicate n h"
  let ?costs = "sort_key sint (map (getCost ?arr) [1..<length ?arr])"
  have "getCost ?arr i = 0" if "i \<in> set [1..<length ?arr]" for i
  proof (cases "i = 1")
    case True
    then show ?thesis using that assms(1) getCost_pair [of 1 ?arr] by simp
  next
    case False
    with that have i: "1 < i" "i < Suc n" by auto
    then have "?arr ! (i - 1) = h" "?arr ! i = h" by (simp_all add: nth_Cons')
    then show ?thesis using getCost_pair [of i ?arr] i assms(2) by simp
  qed
  then have "set ?costs \<subseteq> {0}" by auto
  moreover have "k < length ?costs" using assms(3) by simp
  ultimately show ?thesis using nth_mem [of k ?costs] by blast
qed

text \<open>
  Claim C3, on the code. A file with one chunk of data, ten bytes at the start of the
  blob, and 63 chunks of zeros: 64 parts, of which one is requested. The source answers
  every request with a bad-range error and records what it is asked. The claim, like
  the comment in the loop (\<^emph>\<open>if the server cannot handle at least 64 chunks in a single
  request, just give up\<close>), has the function give up, the rejected request being of a
  single range; the function tests the number of parts instead, merges the 64 parts
  into one and sends the same request of one range again, and gives up only then.
\<close>

theorem retrieveMissingFiles_counts_parts_not_requests:
  "calculateChunksToRequest
     (remotePart (regularFile ''f'') 0 10 10 # replicate 63 (holePart (regularFile ''f'') 10 0 4096))
     = [\<lparr>Offset = 0, Length = 10\<rparr>]
   \<and> retrieveMissingFiles
       (\<lambda>asked cs. (Inl (ErrBadRequest ''bad range'') :: error + unit, asked @ [cs]))
       (\<lambda>streams parts. None) []
       (remotePart (regularFile ''f'') 0 10 10 # replicate 63 (holePart (regularFile ''f'') 10 0 4096))
     = Inr (Some (ErrBadRequest ''bad range''),
            [[\<lparr>Offset = 0, Length = 10\<rparr>], [\<lparr>Offset = 0, Length = 10\<rparr>]])"
proof -
  let ?p = "remotePart (regularFile ''f'') 0 10 10"
  let ?h = "holePart (regularFile ''f'') 10 0 4096"
  let ?G = "\<lambda>asked cs :: ImageSourceChunk list.
      (Inl (ErrBadRequest ''bad range'') :: error + unit, asked @ [cs])"
  let ?S = "\<lambda>(streams :: unit) (parts :: missingPart list). None :: error option"
  let ?m = "?p\<lparr>Chunks := Chunks ?p @ concat (replicate 63 (Chunks ?h))\<rparr>"
  have hole: "Hole ?h" "Length (SourceChunk ?h) = 0" by (simp_all add: holePart_def)
  have remote: "\<not> Hole ?p" "OriginFile ?p = None" by (simp_all add: remotePart_def)
  have cost: "getCost [?p, ?h] 1 = 0" "getCost [?h, ?h] 1 = 0"
    by (simp_all add: getCost_def getGap_def Let_def holePart_def remotePart_def)
  have gap: "getGap [?p, ?h] 1 = 0" "getGap [?h, ?h] 1 = 0"
    by (simp_all add: getGap_def holePart_def remotePart_def)
  have req: "calculateChunksToRequest (?p # replicate 63 ?h) = [\<lparr>Offset = 0, Length = 10\<rparr>]"
    by (simp add: calculateChunksToRequest_def holePart_def remotePart_def)
  have req': "calculateChunksToRequest [?m] = [\<lparr>Offset = 0, Length = 10\<rparr>]"
    by (simp add: calculateChunksToRequest_def remotePart_def)
  have first: "sameFilePass (?p # replicate 63 ?h) = Inr (?p # replicate 63 ?h)"
    unfolding sameFilePass_coalesce by (rule coalesceSame_holes [OF hole(1)])
  have threshold: "sort_key sint (map (getCost (?p # replicate 63 ?h))
      [1..<length (?p # replicate 63 ?h)]) ! 32 = 0"
    by (rule costs_of_holes [OF cost]) simp
  have second: "costPass 0 (?p # replicate 63 ?h) = [?m]"
    unfolding costPass_absorbRun
    by (rule absorbRun_holes) (simp_all add: cost gap hole remote word_sless_alt del: One_nat_def)
  have merged: "mergeMissingChunks (?p # replicate 63 ?h) 32 = Inr [?m]"
    unfolding mergeMissingChunks_def first using threshold second by (simp add: Let_def)
  have again: "retrieveMissingFiles ?G ?S [[\<lparr>Offset = 0, Length = 10\<rparr>]] [?m]
      = Inr (Some (ErrBadRequest ''bad range''),
             [[\<lparr>Offset = 0, Length = 10\<rparr>], [\<lparr>Offset = 0, Length = 10\<rparr>]])"
    by (subst retrieveMissingFiles.simps) (simp add: req')
  have "retrieveMissingFiles ?G ?S [] (?p # replicate 63 ?h)
      = retrieveMissingFiles ?G ?S [[\<lparr>Offset = 0, Length = 10\<rparr>]] [?m]"
    by (subst retrieveMissingFiles.simps) (simp add: req merged)
  with again req show ?thesis by simp
qed

section \<open>Properties of the entry merger\<close>

declare mergeLoop.simps [simp del]

lemma setSize_sel [simp]:
  "Type (setSize v e) = Type e" "Name (setSize v e) = Name e" "Mode (setSize v e) = Mode e"
  "Size (setSize v e) = v" "UID (setSize v e) = UID e" "GID (setSize v e) = GID e"
  "Xattrs (setSize v e) = Xattrs e" "Digest (setSize v e) = Digest e"
  "Offset_fm (setSize v e) = Offset_fm e" "EndOffset (setSize v e) = EndOffset e"
  "Chunks_fm (setSize v e) = Chunks_fm e"
  by (cases e; simp)+

lemma setEndOffset_sel [simp]:
  "Type (setEndOffset v e) = Type e" "Name (setEndOffset v e) = Name e"
  "Mode (setEndOffset v e) = Mode e" "Size (setEndOffset v e) = Size e"
  "UID (setEndOffset v e) = UID e" "GID (setEndOffset v e) = GID e"
  "Xattrs (setEndOffset v e) = Xattrs e" "Digest (setEndOffset v e) = Digest e"
  "Offset_fm (setEndOffset v e) = Offset_fm e" "EndOffset (setEndOffset v e) = v"
  "Chunks_fm (setEndOffset v e) = Chunks_fm e"
  by (cases e; simp)+

lemma setChunks_sel [simp]:
  "Type (setChunks v e) = Type e" "Name (setChunks v e) = Name e"
  "Mode (setChunks v e) = Mode e" "Size (setChunks v e) = Size e"
  "UID (setChunks v e) = UID e" "GID (setChunks v e) = GID e"
  "Xattrs (setChunks v e) = Xattrs e" "Digest (setChunks v e) = Digest e"
  "Offset_fm (setChunks v e) = Offset_fm e" "EndOffset (setChunks v e) = EndOffset e"
  "Chunks_fm (setChunks v e) = v"
  by (cases e; simp)+

lemma set_same [simp]:
  "setEndOffset (EndOffset e) e = e" "setSize (Size e) e = e" "setChunks (Chunks_fm e) e = e"
  by (cases e; simp)+

lemma set_twice [simp]:
  "setEndOffset v (setEndOffset w e) = setEndOffset v e"
  "setSize v (setSize w e) = setSize v e"
  "setChunks cs (setChunks ds e) = setChunks cs e"
  by (cases e; simp)+

lemma set_commute [simp]:
  "setEndOffset v (setSize w e) = setSize w (setEndOffset v e)"
  "setChunks cs (setSize w e) = setSize w (setChunks cs e)"
  "setChunks cs (setEndOffset v e) = setEndOffset v (setChunks cs e)"
  by (cases e; simp)+

lemma set_id [simp]:
  "EndOffset e = v \<Longrightarrow> setEndOffset v e = e"
  "Size e = w \<Longrightarrow> setSize w e = e"
  "Chunks_fm e = cs \<Longrightarrow> setChunks cs e = e"
  by (cases e; simp)+

lemma mustSkipFile_Name: "Name e = Name e' \<Longrightarrow> mustSkipFile ft e = mustSkipFile ft e'"
  by (simp add: mustSkipFile_def)

lemma countChunks_takeWhile: "countChunks es = length (takeWhile isChunk es)"
  by (induction es) (simp_all add: isChunk_def)

lemma mergedSize_Cons:
  "mergedSize ft (e # es) = (if \<not> mustSkipFile ft e \<and> Type e \<noteq> TypeChunk then 1 else 0) + mergedSize ft es"
  by (simp add: mergedSize_def)

lemma mergedSize_dropWhile: "mergedSize ft (dropWhile isChunk es) = mergedSize ft es"
  by (induction es) (simp_all add: mergedSize_def isChunk_def)

lemma drop_run:
  "drop (length (takeWhile P es)) es = dropWhile P es"
  by (induction es) simp_all

lemma take_run:
  "take (length (takeWhile P es)) es = takeWhile P es"
  by (induction es) simp_all

lemma absorbEntries_length:
  "absorbEntries ft es = Inr (ms, t) \<Longrightarrow> length ms = mergedSize ft es"
proof (induction ft es arbitrary: ms t rule: absorbEntries.induct)
  case (1 ft)
  then show ?case by (simp add: mergedSize_def)
next
  case (2 ft e es)
  show ?case
  proof (cases "mustSkipFile ft e")
    case True
    then show ?thesis using 2(1) [OF True] 2(4) by (simp add: mergedSize_Cons)
  next
    case False
    note ns = this
    show ?thesis
    proof (cases "Type e = TypeChunk")
      case True
      then show ?thesis using 2(4) ns by simp
    next
      case False
      note nc = this
      show ?thesis
      proof (cases "Type e = TypeReg")
        case True
        with 2(4) ns nc obtain ms' t' where
          r: "absorbEntries ft (dropWhile isChunk es) = Inr (ms', t')" and "ms = setEndOffset (EndOffset (last (e # takeWhile isChunk es))) (setChunks (e # takeWhile isChunk es) e) # ms'"
          by (auto split: sum.splits)
        then show ?thesis
          using 2(2) [OF ns nc True r] ns nc by (simp add: mergedSize_Cons mergedSize_dropWhile)
      next
        case False
        with 2(4) ns nc obtain ms' t' where
          r: "absorbEntries ft es = Inr (ms', t')" and "ms = e # ms'"
          by (auto split: sum.splits)
        then show ?thesis
          using 2(3) [OF ns nc False r] ns nc by (simp add: mergedSize_Cons)
      qed
    qed
  qed
qed

lemma absorbChunks_run:
  assumes "i < length entries"
  shows "absorbChunks entries i (countNextChunks entries (i + 1)) (entries ! i)
     = setEndOffset (EndOffset (last (entries ! i # takeWhile isChunk (drop (Suc i) entries))))
         (setChunks (entries ! i # takeWhile isChunk (drop (Suc i) entries)) (entries ! i))"
proof -
  let ?es = "drop (Suc i) entries"
  let ?n = "length (takeWhile isChunk ?es)"
  have n: "countNextChunks entries (i + 1) = ?n"
    by (simp add: countNextChunks_def countChunks_takeWhile)
  have le: "?n \<le> length ?es" by (rule length_takeWhile_le)
  have d: "drop i entries = entries ! i # ?es"
    using assms by (simp add: Cons_nth_drop_Suc)
  have "map (\<lambda>j. entries ! (i + j)) [0..<?n + 1] = take (?n + 1) (drop i entries)"
    using le assms by (intro nth_equalityI) (auto simp del: upt_Suc)
  also have "\<dots> = entries ! i # takeWhile isChunk ?es"
    unfolding d by (simp add: take_run)
  finally have m: "map (\<lambda>j. entries ! (i + j)) [0..<?n + 1] = entries ! i # takeWhile isChunk ?es" .
  have "entries ! (i + ?n) = (entries ! i # takeWhile isChunk ?es) ! ?n"
    unfolding m [symmetric] by (simp del: upt_Suc)
  also have "\<dots> = last (entries ! i # takeWhile isChunk ?es)"
    by (simp add: last_conv_nth)
  finally show ?thesis unfolding absorbChunks_def n m by simp
qed

lemma mergeLoop_absorbEntries:
  "i \<le> length entries \<Longrightarrow> m + mergedSize ft (drop i entries) = length merged \<Longrightarrow>
   mergeLoop ft entries merged m total0 i
     = (case absorbEntries ft (drop i entries) of
          Inl f \<Rightarrow> Inl f
        | Inr (ms, t) \<Rightarrow> Inr (take m merged @ ms, total0 + t))"
proof (induction ft entries merged m total0 i rule: mergeLoop.induct)
  case (1 ft entries merged m total0 i)
  show ?case
  proof (cases "i < length entries")
    case False
    with 1(3,4) show ?thesis
      by (subst mergeLoop.simps) (simp add: mergedSize_def)
  next
    case True
    let ?e = "entries ! i"
    let ?es = "drop (Suc i) entries"
    have d: "drop i entries = ?e # ?es" using True by (simp add: Cons_nth_drop_Suc)
    show ?thesis
    proof (cases "mustSkipFile ft ?e")
      case True
      note sk = this
      have "m + mergedSize ft (drop (i + 1) entries) = length merged"
        using 1(4) sk unfolding d by (simp add: mergedSize_Cons)
      from 1(1) [OF \<open>i < length entries\<close> refl sk _ this] \<open>i < length entries\<close>
      have "mergeLoop ft entries merged m total0 (i + 1)
          = (case absorbEntries ft ?es of Inl f \<Rightarrow> Inl f
             | Inr (ms, t) \<Rightarrow> Inr (take m merged @ ms, total0 + t))"
        by simp
      then show ?thesis
        unfolding d using sk \<open>i < length entries\<close>
        by (subst mergeLoop.simps) (simp add: Let_def)
    next
      case False
      note ns = this
      show ?thesis
      proof (cases "Type ?e = TypeChunk")
        case True
        then show ?thesis
          unfolding d using ns \<open>i < length entries\<close>
          by (subst mergeLoop.simps) (simp add: Let_def)
      next
        case False
        note nc = this
        define nChunks where "nChunks = (if Type ?e = TypeReg then countNextChunks entries (i + 1) else 0)"
        define e' where "e' = (if Type ?e = TypeReg then absorbChunks entries i nChunks ?e else ?e)"
        have room: "m < length merged"
          using 1(4) ns nc unfolding d by (simp add: mergedSize_Cons)
        have n_run: "Type ?e = TypeReg \<Longrightarrow> nChunks = length (takeWhile isChunk ?es)"
          by (simp add: nChunks_def countNextChunks_def countChunks_takeWhile)
        have dr: "drop (i + nChunks + 1) entries
            = (if Type ?e = TypeReg then dropWhile isChunk ?es else ?es)"
        proof (cases "Type ?e = TypeReg")
          case True
          have a: "drop (i + nChunks + 1) entries = drop nChunks ?es"
            by (simp add: add.commute)
          have b: "drop nChunks ?es = dropWhile isChunk ?es"
            unfolding n_run [OF True] by (rule drop_run)
          show ?thesis unfolding a b using True by simp
        next
          case False
          then show ?thesis by (simp add: nChunks_def)
        qed
        have le: "i + nChunks + 1 \<le> length entries"
        proof (cases "Type ?e = TypeReg")
          case True
          have "length (takeWhile isChunk ?es) \<le> length ?es" by (rule length_takeWhile_le)
          then show ?thesis using True n_run \<open>i < length entries\<close> by simp
        next
          case False
          then show ?thesis using \<open>i < length entries\<close> by (simp add: nChunks_def)
        qed
        have sz: "(m + 1) + mergedSize ft (drop (i + nChunks + 1) entries) = length (merged[m := e'])"
          using 1(4) ns nc unfolding d dr
          by (simp add: mergedSize_Cons mergedSize_dropWhile)
        have ih: "mergeLoop ft entries (merged[m := e']) (m + 1) (total0 + Size ?e) (i + nChunks + 1)
            = (case absorbEntries ft (drop (i + nChunks + 1) entries) of Inl f \<Rightarrow> Inl f
               | Inr (ms, t) \<Rightarrow> Inr (take (m + 1) (merged[m := e']) @ ms, total0 + Size ?e + t))"
          using 1(2) [OF \<open>i < length entries\<close> refl ns refl nc nChunks_def e'_def room le sz] .
        have tk: "take (m + 1) (merged[m := e']) = take m merged @ [e']"
          using room by (simp add: take_Suc_conv_app_nth)
        have step: "mergeLoop ft entries merged m total0 i
            = mergeLoop ft entries (merged[m := e']) (m + 1) (total0 + Size ?e) (i + nChunks + 1)"
          using ns nc room \<open>i < length entries\<close>
          by (subst mergeLoop.simps) (simp add: Let_def nChunks_def e'_def)
        show ?thesis
        proof (cases "Type ?e = TypeReg")
          case True
          have e': "e' = setEndOffset (EndOffset (last (?e # takeWhile isChunk ?es)))
                           (setChunks (?e # takeWhile isChunk ?es) ?e)"
            using True absorbChunks_run [OF \<open>i < length entries\<close>]
            by (simp add: e'_def nChunks_def)
          show ?thesis
            unfolding step ih tk d dr using ns nc True e'
            by (cases "absorbEntries ft (dropWhile isChunk ?es)") (auto simp: add.assoc)
        next
          case False
          then have e': "e' = ?e" by (simp add: e'_def)
          show ?thesis
            unfolding step ih tk d dr using ns nc False e'
            by (cases "absorbEntries ft ?es") (auto simp: add.assoc)
        qed
      qed
    qed
  qed
qed

lemma mergeTocEntries_absorbEntries:
  "mergeTocEntries tocOffset ft entries
     = (case absorbEntries ft entries of
          Inl f \<Rightarrow> Inl f
        | Inr (ms, t) \<Rightarrow> Inr (fixEndOffsets tocOffset ms, t))"
  using mergeLoop_absorbEntries [of 0 entries 0 ft "replicate (mergedSize ft entries) zeroFileMetadata" 0]
  by (simp add: mergeTocEntries_def split: sum.splits)

lemma absorbEntries_no_chunk:
  "absorbEntries ft es = Inr (ms, t) \<Longrightarrow> \<forall>e \<in> set ms. Type e \<noteq> TypeChunk \<and> \<not> mustSkipFile ft e"
proof (induction ft es arbitrary: ms t rule: absorbEntries.induct)
  case (1 ft)
  then show ?case by simp
next
  case (2 ft e es)
  show ?case
  proof (cases "mustSkipFile ft e")
    case True
    then show ?thesis using 2(1) [OF True] 2(4) by simp
  next
    case False
    note ns = this
    show ?thesis
    proof (cases "Type e = TypeChunk")
      case True
      then show ?thesis using 2(4) ns by simp
    next
      case False
      note nc = this
      show ?thesis
      proof (cases "Type e = TypeReg")
        case True
        with 2(4) ns nc obtain ms' t' where
          r: "absorbEntries ft (dropWhile isChunk es) = Inr (ms', t')"
          and ms: "ms = setEndOffset (EndOffset (last (e # takeWhile isChunk es)))
                     (setChunks (e # takeWhile isChunk es) e) # ms'"
          by (auto split: sum.splits)
        have "mustSkipFile ft (setEndOffset (EndOffset (last (e # takeWhile isChunk es)))
                     (setChunks (e # takeWhile isChunk es) e)) = mustSkipFile ft e"
          by (simp add: mustSkipFile_def)
        then show ?thesis
          using 2(2) [OF ns nc True r] ns nc ms by auto
      next
        case False
        with 2(4) ns nc obtain ms' t' where
          r: "absorbEntries ft es = Inr (ms', t')" and ms: "ms = e # ms'"
          by (auto split: sum.splits)
        show ?thesis using 2(3) [OF ns nc False r] ns nc ms by auto
      qed
    qed
  qed
qed

lemma takeWhile_index:
  assumes "k < length es" and "\<not> P (es ! k)"
  shows "length (takeWhile P es) \<le> k"
proof (rule ccontr)
  assume "\<not> length (takeWhile P es) \<le> k"
  then have k: "k < length (takeWhile P es)" by simp
  then have "takeWhile P es ! k = es ! k" by (rule takeWhile_nth)
  moreover have "takeWhile P es ! k \<in> set (takeWhile P es)" using k by simp
  ultimately show False using assms(2) set_takeWhileD by metis
qed

lemma mergedSize_append: "mergedSize ft (xs @ ys) = mergedSize ft xs + mergedSize ft ys"
  by (simp add: mergedSize_def)

lemma mergedSize_takeWhile: "mergedSize ft (takeWhile isChunk es) = 0"
proof -
  have "\<forall>x \<in> set (takeWhile isChunk es). isChunk x" by (auto dest: set_takeWhileD)
  then show ?thesis by (auto simp: mergedSize_def isChunk_def filter_empty_conv)
qed

lemma take_beyond_run:
  assumes "length (takeWhile P es) \<le> k"
  shows "take k es = takeWhile P es @ take (k - length (takeWhile P es)) (dropWhile P es)"
proof -
  have "take k es = take k (takeWhile P es @ dropWhile P es)" by simp
  also have "\<dots> = takeWhile P es @ take (k - length (takeWhile P es)) (dropWhile P es)"
    using assms by (simp only: take_append) simp
  finally show ?thesis .
qed

lemma nth_beyond_run:
  assumes "length (takeWhile P es) \<le> k"
  shows "es ! k = dropWhile P es ! (k - length (takeWhile P es))"
    and "drop (Suc k) es = drop (Suc (k - length (takeWhile P es))) (dropWhile P es)"
proof -
  have e: "es = takeWhile P es @ dropWhile P es" by simp
  show "es ! k = dropWhile P es ! (k - length (takeWhile P es))"
    using assms by (subst e) (simp only: nth_append, simp)
  have "drop (Suc k) es = drop (Suc k) (takeWhile P es @ dropWhile P es)" by simp
  also have "\<dots> = drop (Suc (k - length (takeWhile P es))) (dropWhile P es)"
    using assms by (simp only: drop_append) (simp add: Suc_diff_le)
  finally show "drop (Suc k) es = drop (Suc (k - length (takeWhile P es))) (dropWhile P es)" .
qed

lemma absorbEntries_regular:
  "absorbEntries ft es = Inr (ms, t) \<Longrightarrow> k < length es \<Longrightarrow> Type (es ! k) = TypeReg \<Longrightarrow>
   \<not> mustSkipFile ft (es ! k) \<Longrightarrow>
   ms ! mergedSize ft (take k es)
     = setEndOffset (EndOffset (last (es ! k # takeWhile isChunk (drop (Suc k) es))))
         (setChunks (es ! k # takeWhile isChunk (drop (Suc k) es)) (es ! k))"
proof (induction ft es arbitrary: ms t k rule: absorbEntries.induct)
  case (1 ft)
  then show ?case by simp
next
  case (2 ft e es)
  have regnc: "TypeReg \<noteq> TypeChunk" by (simp add: TypeReg_def TypeChunk_def)
  show ?case
  proof (cases k)
    case 0
    then show ?thesis using 2(4,6,7) regnc by (auto simp: mergedSize_def split: sum.splits)
  next
    case (Suc k')
    then have k': "k' < length es" "Type (es ! k') = TypeReg" "\<not> mustSkipFile ft (es ! k')"
      using 2(5,6,7) by simp_all
    show ?thesis
    proof (cases "mustSkipFile ft e")
      case True
      then show ?thesis using 2(1) [OF True _ k'] 2(4) Suc by (simp add: mergedSize_Cons)
    next
      case False
      note ns = this
      show ?thesis
      proof (cases "Type e = TypeChunk")
        case True
        then show ?thesis using 2(4) ns by simp
      next
        case False
        note nc = this
        show ?thesis
        proof (cases "Type e = TypeReg")
          case True
          with 2(4) ns nc obtain ms' t' where
            r: "absorbEntries ft (dropWhile isChunk es) = Inr (ms', t')"
            and ms: "ms = setEndOffset (EndOffset (last (e # takeWhile isChunk es)))
                       (setChunks (e # takeWhile isChunk es) e) # ms'"
            by (auto split: sum.splits)
          let ?n = "length (takeWhile isChunk es)"
          have "\<not> isChunk (es ! k')" using k'(2) regnc by (simp add: isChunk_def)
          then have n: "?n \<le> k'" using k'(1) by (intro takeWhile_index)
          note nb = nth_beyond_run [OF n]
          have "length (takeWhile isChunk es @ dropWhile isChunk es) = length es" by simp
          then have "?n + length (dropWhile isChunk es) = length es"
            by (simp only: length_append)
          then have kd: "k' - ?n < length (dropWhile isChunk es)"
            using k'(1) n by linarith
          have "ms' ! mergedSize ft (take (k' - ?n) (dropWhile isChunk es))
              = setEndOffset (EndOffset (last (es ! k' # takeWhile isChunk (drop (Suc k') es))))
                  (setChunks (es ! k' # takeWhile isChunk (drop (Suc k') es)) (es ! k'))"
            using 2(2) [OF ns nc True r kd] k'(2,3) unfolding nb [symmetric] by simp
          moreover have "mergedSize ft (take k (e # es))
              = Suc (mergedSize ft (take (k' - ?n) (dropWhile isChunk es)))"
            unfolding Suc using ns nc
            by (simp add: mergedSize_Cons take_beyond_run [OF n] mergedSize_append mergedSize_takeWhile)
          ultimately show ?thesis using ms Suc by simp
        next
          case False
          with 2(4) ns nc obtain ms' t' where
            r: "absorbEntries ft es = Inr (ms', t')" and ms: "ms = e # ms'"
            by (auto split: sum.splits)
          show ?thesis using 2(3) [OF ns nc False r k'] ns nc ms Suc by (simp add: mergedSize_Cons)
        qed
      qed
    qed
  qed
qed

lemma filter_take_Cons:
  "filter P (take (Suc k) (e # es)) = (if P e then [e] else []) @ filter P (take k es)"
  by simp

lemma absorbEntries_orphan:
  "k < length es \<Longrightarrow> Type (es ! k) = TypeChunk \<Longrightarrow> \<not> mustSkipFile ft (es ! k) \<Longrightarrow>
   filter (\<lambda>e. \<not> isChunk e) (take k es) = []
     \<or> Type (last (filter (\<lambda>e. \<not> isChunk e) (take k es))) \<noteq> TypeReg \<Longrightarrow>
   absorbEntries ft es = Inl (Failed ''chunk type without a regular file'')"
proof (induction ft es arbitrary: k rule: absorbEntries.induct)
  case (1 ft)
  then show ?case by simp
next
  case (2 ft e es)
  show ?case
  proof (cases k)
    case 0
    then show ?thesis using 2(5,6) by simp
  next
    case (Suc k')
    then have k': "k' < length es" "Type (es ! k') = TypeChunk" "\<not> mustSkipFile ft (es ! k')"
      using 2(4,5,6) by simp_all
    let ?before = "filter (\<lambda>e. \<not> isChunk e) (take k' es)"
    have before: "filter (\<lambda>e. \<not> isChunk e) (take k (e # es))
        = (if \<not> isChunk e then [e] else []) @ ?before"
      unfolding Suc by simp
    have tail: "?before = [] \<or> Type (last ?before) \<noteq> TypeReg"
      using 2(7) unfolding before by (cases "?before = []") (auto split: if_splits)
    show ?thesis
    proof (cases "mustSkipFile ft e")
      case True
      then show ?thesis using 2(1) [OF True k' tail] by simp
    next
      case False
      note ns = this
      show ?thesis
      proof (cases "Type e = TypeChunk")
        case True
        then show ?thesis using ns by simp
      next
        case False
        note nc = this
        show ?thesis
        proof (cases "Type e = TypeReg")
          case True
          let ?n = "length (takeWhile isChunk es)"
          have ne: "?before \<noteq> []"
          proof
            assume "?before = []"
            then have "filter (\<lambda>e. \<not> isChunk e) (take k (e # es)) = [e]"
              unfolding before using nc by (simp add: isChunk_def)
            then show False using 2(7) True by simp
          qed
          have n: "?n \<le> k'"
          proof (rule ccontr)
            assume "\<not> ?n \<le> k'"
            then have "k' \<le> ?n" by simp
            then have "take k' es = take k' (takeWhile isChunk es)"
              by (metis take_run take_take min.absorb1)
            then have "\<forall>x \<in> set (take k' es). isChunk x"
              by (metis in_set_takeD set_takeWhileD)
            then have "?before = []" by (auto simp: filter_empty_conv)
            with ne show False by simp
          qed
          note nb = nth_beyond_run [OF n]
          have "length (takeWhile isChunk es @ dropWhile isChunk es) = length es" by simp
          then have "?n + length (dropWhile isChunk es) = length es"
            by (simp only: length_append)
          then have kd: "k' - ?n < length (dropWhile isChunk es)"
            using k'(1) n by linarith
          have allc: "filter (\<lambda>e. \<not> isChunk e) (takeWhile isChunk es) = []"
            by (auto simp: filter_empty_conv dest: set_takeWhileD)
          have "?before = filter (\<lambda>e. \<not> isChunk e) (take (k' - ?n) (dropWhile isChunk es))"
            unfolding take_beyond_run [OF n] using allc by simp
          then have tail': "filter (\<lambda>e. \<not> isChunk e) (take (k' - ?n) (dropWhile isChunk es)) = []
              \<or> Type (last (filter (\<lambda>e. \<not> isChunk e) (take (k' - ?n) (dropWhile isChunk es)))) \<noteq> TypeReg"
            using tail by simp
          have "absorbEntries ft (dropWhile isChunk es) = Inl (Failed ''chunk type without a regular file'')"
            using 2(2) [OF ns nc True kd] k'(2,3) tail' unfolding nb(1) [symmetric] by simp
          then show ?thesis using ns nc True by simp
        next
          case False
          then show ?thesis using 2(3) [OF ns nc False k' tail] ns nc by simp
        qed
      qed
    qed
  qed
qed

lemma chunkStep_fields:
  "map (\<lambda>c. setSize 0 (setEndOffset 0 c)) (fst (foldr chunkStep cs ([], l)))
     = map (\<lambda>c. setSize 0 (setEndOffset 0 c)) cs"
  by (induction cs) (simp_all add: chunkStep_def split_beta)

lemma foldr_entryStep:
  "foldr entryStep es ([], T)
     = (map (\<lambda>i. fixEntry (lastOffsetOf T (drop (Suc i) es)) (es ! i)) [0..<length es],
        lastOffsetOf T es)"
proof (induction es)
  case Nil
  show ?case by (simp add: lastOffsetOf_def)
next
  case (Cons e es)
  have "map (\<lambda>i. fixEntry (lastOffsetOf T (drop (Suc i) (e # es))) ((e # es) ! i)) [0..<length (e # es)]
      = fixEntry (lastOffsetOf T es) e
        # map (\<lambda>i. fixEntry (lastOffsetOf T (drop (Suc i) es)) (es ! i)) [0..<length es]"
    by (simp add: upt_conv_Cons map_Suc_upt [symmetric] del: upt_Suc)
  then show ?case
    using Cons by (simp add: entryStep_def fixEntry_def lastOffsetOf_def Let_def)
qed

lemma fixEndOffsets_Cons:
  "fixEndOffsets T (e # es) = fixEntry (lastOffsetOf T es) e # fixEndOffsets T es"
  "fixEndOffsets T [] = []"
  by (simp_all add: fixEndOffsets_def entryStep_def fixEntry_def Let_def split_beta
        foldr_entryStep)

lemma fixEntry_sel [simp]:
  "Type (fixEntry lo e) = Type e" "Name (fixEntry lo e) = Name e" "Size (fixEntry lo e) = Size e"
  "Offset_fm (fixEntry lo e) = Offset_fm e"
  "EndOffset (fixEntry lo e) = (if EndOffset e = 0 then lo else EndOffset e)"
  "map (\<lambda>c. setSize 0 (setEndOffset 0 c)) (Chunks_fm (fixEntry lo e))
     = map (\<lambda>c. setSize 0 (setEndOffset 0 c)) (Chunks_fm e)"
  by (simp_all add: fixEntry_def Let_def chunkStep_fields)

lemma fixEndOffsets_nth:
  "j < length ms \<Longrightarrow> \<exists>lo. fixEndOffsets T ms ! j = fixEntry lo (ms ! j)"
  by (induction ms arbitrary: j) (auto simp: fixEndOffsets_Cons nth_Cons split: nat.splits)

lemma fixEndOffsets_length [simp]: "length (fixEndOffsets T ms) = length ms"
  by (induction ms) (simp_all add: fixEndOffsets_Cons)

lemma TypeReg_not_TypeChunk: "TypeReg \<noteq> TypeChunk"
  by (simp add: TypeReg_def TypeChunk_def)

text \<open>
  Claim C5, amended. For every list of TOC entries: the merger returns the error
  \<open>chunk type without a regular file\<close> whenever a chunk-continuation entry that is not
  one of the eStargz metadata entries the merger drops is not preceded by a regular-file
  entry or by continuation chunks that follow one (the nearest entry before it that is
  not a chunk is missing or is not regular). In every successful result no entry of
  chunk-continuation type appears, and each regular file that is not dropped has
  absorbed the run of continuation entries after it: its chunk list is a copy of the
  entry itself followed by the entries of the run, with end offsets and sizes recomputed.
\<close>

theorem mergeTocEntries_chunk_rules:
  "(i < length entries \<and> Type (entries ! i) = TypeChunk \<and> \<not> mustSkipFile fileType (entries ! i)
      \<and> (filter (\<lambda>e. Type e \<noteq> TypeChunk) (take i entries) = []
          \<or> Type (last (filter (\<lambda>e. Type e \<noteq> TypeChunk) (take i entries))) \<noteq> TypeReg)
     \<longrightarrow> mergeTocEntries tocOffset fileType entries
           = Inl (Failed ''chunk type without a regular file''))
   \<and> (mergeTocEntries tocOffset fileType entries = Inr (merged, totalSize)
     \<longrightarrow> (\<forall>e \<in> set merged. Type e \<noteq> TypeChunk)
         \<and> (k < length entries \<and> Type (entries ! k) = TypeReg
                \<and> \<not> mustSkipFile fileType (entries ! k)
             \<longrightarrow> (let e = merged ! mergedSize fileType (take k entries) in
                   Type e = TypeReg \<and> Name e = Name (entries ! k)
                   \<and> map (\<lambda>c. setSize 0 (setEndOffset 0 c)) (Chunks_fm e)
                     = map (\<lambda>c. setSize 0 (setEndOffset 0 c))
                         (entries ! k
                          # takeWhile (\<lambda>e. Type e = TypeChunk) (drop (Suc k) entries)))))"
proof (intro conjI impI)
  assume a: "i < length entries \<and> Type (entries ! i) = TypeChunk \<and> \<not> mustSkipFile fileType (entries ! i)
      \<and> (filter (\<lambda>e. Type e \<noteq> TypeChunk) (take i entries) = []
          \<or> Type (last (filter (\<lambda>e. Type e \<noteq> TypeChunk) (take i entries))) \<noteq> TypeReg)"
  have f: "(\<lambda>e. Type e \<noteq> TypeChunk) = (\<lambda>e. \<not> isChunk e)" by (simp add: isChunk_def)
  from a have "absorbEntries fileType entries = Inl (Failed ''chunk type without a regular file'')"
    unfolding f using absorbEntries_orphan [of i entries fileType] by blast
  then show "mergeTocEntries tocOffset fileType entries
      = Inl (Failed ''chunk type without a regular file'')"
    by (simp add: mergeTocEntries_absorbEntries)
next
  assume m: "mergeTocEntries tocOffset fileType entries = Inr (merged, totalSize)"
  then obtain ms where ms: "absorbEntries fileType entries = Inr (ms, totalSize)"
    and merged: "merged = fixEndOffsets tocOffset ms"
    by (auto simp: mergeTocEntries_absorbEntries split: sum.splits)
  show "\<forall>e \<in> set merged. Type e \<noteq> TypeChunk"
  proof
    fix e assume "e \<in> set merged"
    then obtain j where j: "j < length ms" "e = fixEndOffsets tocOffset ms ! j"
      unfolding merged by (auto simp: in_set_conv_nth)
    from fixEndOffsets_nth [OF j(1)] j(2) obtain lo where "e = fixEntry lo (ms ! j)" by metis
    then show "Type e \<noteq> TypeChunk"
      using absorbEntries_no_chunk [OF ms] j(1) by simp
  qed
  assume k: "k < length entries \<and> Type (entries ! k) = TypeReg
      \<and> \<not> mustSkipFile fileType (entries ! k)"
  let ?j = "mergedSize fileType (take k entries)"
  let ?run = "entries ! k # takeWhile isChunk (drop (Suc k) entries)"
  have msj: "ms ! ?j = setEndOffset (EndOffset (last ?run)) (setChunks ?run (entries ! k))"
    using absorbEntries_regular [OF ms] k by simp
  have "entries = take k entries @ entries ! k # drop (Suc k) entries"
    using k by (simp add: id_take_nth_drop [symmetric])
  then have "mergedSize fileType entries
      = ?j + mergedSize fileType (entries ! k # drop (Suc k) entries)"
    by (metis mergedSize_append)
  then have "?j < mergedSize fileType entries"
    using k TypeReg_not_TypeChunk by (simp add: mergedSize_Cons)
  then have j: "?j < length ms" using absorbEntries_length [OF ms] by simp
  from fixEndOffsets_nth [OF j] obtain lo where
    lo: "merged ! ?j = fixEntry lo (ms ! ?j)" unfolding merged by metis
  have ic: "isChunk = (\<lambda>e. Type e = TypeChunk)" by (simp add: isChunk_def fun_eq_iff)
  show "let e = merged ! mergedSize fileType (take k entries) in
          Type e = TypeReg \<and> Name e = Name (entries ! k)
          \<and> map (\<lambda>c. setSize 0 (setEndOffset 0 c)) (Chunks_fm e)
            = map (\<lambda>c. setSize 0 (setEndOffset 0 c))
                (entries ! k # takeWhile (\<lambda>e. Type e = TypeChunk) (drop (Suc k) entries))"
    unfolding Let_def lo msj ic [symmetric] using k by simp
qed

lemmas merger_eval =
  mergeTocEntries_absorbEntries fixEndOffsets_Cons fixEntry_def lastOffsetOf_def chunkStep_def
  mustSkipFile_def isChunk_def TypeReg_def TypeChunk_def tocEntry_def PrefetchLandmark_def
  NoPrefetchLandmark_def TOCTarName_def Let_def mergedSize_def

text \<open>
  Claim C5 as stated fails for an eStargz layer: the merger drops the metadata entries by
  name before it looks at the type, so a chunk-continuation entry with the name of the
  prefetch landmark, with no regular file before it, is dropped and no error is returned.
\<close>

theorem landmark_chunk_is_dropped:
  "mergeTocEntries 0 fileTypeEstargz [tocEntry TypeChunk PrefetchLandmark 1 0] = Inr ([], 0)"
  by (simp add: merger_eval)

text \<open>
  The amended claim at a chunk that follows a directory, and at a regular file followed
  by one continuation chunk.
\<close>

theorem mergeTocEntries_chunk_rules_witness:
  "mergeTocEntries 100 fileTypeZstdChunked [tocEntry ''dir'' ''d'' 0 0, tocEntry TypeChunk ''d'' 0 10]
     = Inl (Failed ''chunk type without a regular file'')
   \<and> mergeTocEntries 100 fileTypeZstdChunked
        [tocEntry TypeReg ''a'' 30 10, tocEntry TypeChunk ''a'' 0 20]
     = Inr ([FileMetadata TypeReg ''a'' 0 30 0 0 None [] 10 100
              [FileMetadata TypeReg ''a'' 0 10 0 0 None [] 10 20 [],
               FileMetadata TypeChunk ''a'' 0 80 0 0 None [] 20 100 []]], 30)
   \<and> map (\<lambda>c. setSize 0 (setEndOffset 0 c))
        [FileMetadata TypeReg ''a'' 0 10 0 0 None [] 10 20 [],
         FileMetadata TypeChunk ''a'' 0 80 0 0 None [] 20 100 []]
     = map (\<lambda>c. setSize 0 (setEndOffset 0 c))
        [tocEntry TypeReg ''a'' 30 10, tocEntry TypeChunk ''a'' 0 20]"
proof -
  let ?E1 = "[tocEntry ''dir'' ''d'' 0 0, tocEntry TypeChunk ''d'' 0 10]"
  let ?E2 = "[tocEntry TypeReg ''a'' 30 10, tocEntry TypeChunk ''a'' 0 20]"
  let ?M2 = "[FileMetadata TypeReg ''a'' 0 30 0 0 None [] 10 100
              [FileMetadata TypeReg ''a'' 0 10 0 0 None [] 10 20 [],
               FileMetadata TypeChunk ''a'' 0 80 0 0 None [] 20 100 []]]"
  have h1: "1 < length ?E1 \<and> Type (?E1 ! 1) = TypeChunk \<and> \<not> mustSkipFile fileTypeZstdChunked (?E1 ! 1)
      \<and> (filter (\<lambda>e. Type e \<noteq> TypeChunk) (take 1 ?E1) = []
          \<or> Type (last (filter (\<lambda>e. Type e \<noteq> TypeChunk) (take 1 ?E1))) \<noteq> TypeReg)"
    by (simp add: merger_eval)
  have e2: "mergeTocEntries 100 fileTypeZstdChunked ?E2 = Inr (?M2, 30)"
    by (simp add: merger_eval)
  have h2: "0 < length ?E2 \<and> Type (?E2 ! 0) = TypeReg \<and> \<not> mustSkipFile fileTypeZstdChunked (?E2 ! 0)"
    by (simp add: merger_eval)
  from mergeTocEntries_chunk_rules [of 1 ?E1 fileTypeZstdChunked 100] h1
  have "mergeTocEntries 100 fileTypeZstdChunked ?E1 = Inl (Failed ''chunk type without a regular file'')"
    by blast
  moreover from mergeTocEntries_chunk_rules [of _ ?E2 fileTypeZstdChunked 100 ?M2 30 0] e2 h2
  have "map (\<lambda>c. setSize 0 (setEndOffset 0 c)) (Chunks_fm (?M2 ! mergedSize fileTypeZstdChunked (take 0 ?E2)))
     = map (\<lambda>c. setSize 0 (setEndOffset 0 c))
         (?E2 ! 0 # takeWhile (\<lambda>e. Type e = TypeChunk) (drop (Suc 0) ?E2))"
    unfolding Let_def by blast
  then have "map (\<lambda>c. setSize 0 (setEndOffset 0 c))
        [FileMetadata TypeReg ''a'' 0 10 0 0 None [] 10 20 [],
         FileMetadata TypeChunk ''a'' 0 80 0 0 None [] 20 100 []]
     = map (\<lambda>c. setSize 0 (setEndOffset 0 c)) ?E2"
    by (simp add: merger_eval)
  ultimately show ?thesis using e2 by blast
qed

lemma absorbEntries_total:
  "absorbEntries ft es = Inr (ms, t) \<Longrightarrow> t = foldr (\<lambda>e t. Size e + t) ms 0"
proof (induction ft es arbitrary: ms t rule: absorbEntries.induct)
  case (1 ft)
  then show ?case by auto
next
  case (2 ft e es)
  show ?case
  proof (cases "mustSkipFile ft e")
    case True
    then show ?thesis using 2(1) [OF True] 2(4) by simp
  next
    case False
    note ns = this
    show ?thesis
    proof (cases "Type e = TypeChunk")
      case True
      then show ?thesis using 2(4) ns by simp
    next
      case False
      note nc = this
      show ?thesis
      proof (cases "Type e = TypeReg")
        case True
        with 2(4) ns nc obtain ms' t' where
          r: "absorbEntries ft (dropWhile isChunk es) = Inr (ms', t')"
          and ms: "ms = setEndOffset (EndOffset (last (e # takeWhile isChunk es)))
                     (setChunks (e # takeWhile isChunk es) e) # ms'" "t = Size e + t'"
          by (auto split: sum.splits)
        show ?thesis using 2(2) [OF ns nc True r] ms by simp
      next
        case False
        with 2(4) ns nc obtain ms' t' where
          r: "absorbEntries ft es = Inr (ms', t')" and ms: "ms = e # ms'" "t = Size e + t'"
          by (auto split: sum.splits)
        show ?thesis using 2(3) [OF ns nc False r] ms by simp
      qed
    qed
  qed
qed

lemma no_chunk_run:
  "\<forall>e \<in> set es. Type e \<noteq> TypeChunk \<Longrightarrow> takeWhile isChunk es = [] \<and> dropWhile isChunk es = es"
  by (cases es) (simp_all add: isChunk_def)

lemma absorbEntries_merged:
  "\<forall>e \<in> set es. Type e \<noteq> TypeChunk \<and> \<not> mustSkipFile ft e \<Longrightarrow>
   absorbEntries ft es
     = Inr (map (\<lambda>e. if Type e = TypeReg then setChunks [e] e else e) es,
            foldr (\<lambda>e t. Size e + t) es 0)"
proof (induction es)
  case Nil
  show ?case by simp
next
  case (Cons e es)
  have run: "takeWhile isChunk es = []" "dropWhile isChunk es = es"
    using Cons.prems no_chunk_run [of es] by simp_all
  show ?case using Cons run by simp
qed

lemma lastOffsetOf_cong:
  "map Offset_fm xs = map Offset_fm ys \<Longrightarrow> lastOffsetOf T xs = lastOffsetOf T ys"
proof (induction xs arbitrary: ys)
  case Nil
  then show ?case by simp
next
  case (Cons x xs)
  then obtain y ys' where ys: "ys = y # ys'" by (cases ys) auto
  with Cons.prems have "Offset_fm x = Offset_fm y" "map Offset_fm xs = map Offset_fm ys'" by simp_all
  then show ?case using Cons.IH [of ys'] ys by (simp add: lastOffsetOf_def)
qed

lemma fixEndOffsets_Offsets [simp]: "map Offset_fm (fixEndOffsets T ms) = map Offset_fm ms"
  by (induction ms) (simp_all add: fixEndOffsets_Cons)

lemma fixEndOffsets_Sizes [simp]:
  "foldr (\<lambda>e t. Size e + t) (fixEndOffsets T ms) 0 = foldr (\<lambda>e t. Size e + t) ms 0"
  by (induction ms) (simp_all add: fixEndOffsets_Cons)

lemma foldr_chunkStep:
  "foldr chunkStep (c # cs) ([], l)
     = (setSize ((case cs of [] \<Rightarrow> l | c' # _ \<Rightarrow> Offset_fm c') - Offset_fm c)
          (setEndOffset (case cs of [] \<Rightarrow> l | c' # _ \<Rightarrow> Offset_fm c') c)
        # fst (foldr chunkStep cs ([], l)),
        Offset_fm c)"
  by (cases cs) (simp_all add: chunkStep_def split_beta)

lemma fixChunks_Offsets:
  "map Offset_fm (fst (foldr chunkStep cs ([], l))) = map Offset_fm cs"
  by (induction cs) (simp_all add: chunkStep_def split_beta)

lemma fixChunks_idem:
  "fst (foldr chunkStep (fst (foldr chunkStep cs ([], l))) ([], l)) = fst (foldr chunkStep cs ([], l))"
proof (induction cs)
  case Nil
  show ?case by simp
next
  case (Cons c cs)
  let ?f = "fst (foldr chunkStep cs ([], l))"
  let ?n = "case cs of [] \<Rightarrow> l | c' # _ \<Rightarrow> Offset_fm c'"
  have hd: "(case ?f of [] \<Rightarrow> l | c' # _ \<Rightarrow> Offset_fm c') = ?n"
    using fixChunks_Offsets [of cs l] by (cases cs; cases ?f) auto
  have "fst (foldr chunkStep (c # cs) ([], l)) = setSize (?n - Offset_fm c) (setEndOffset ?n c) # ?f"
    by (simp only: foldr_chunkStep fst_conv)
  moreover have "fst (foldr chunkStep (setSize (?n - Offset_fm c) (setEndOffset ?n c) # ?f) ([], l))
      = setSize (?n - Offset_fm c) (setEndOffset ?n c) # ?f"
    by (simp only: foldr_chunkStep fst_conv hd Cons.IH) simp
  ultimately show ?case by simp
qed

lemma fixEntry_again:
  "fixEntry lo ((if Type (fixEntry lo e) = TypeReg then setChunks [fixEntry lo e] (fixEntry lo e)
                 else fixEntry lo e))
     = collapseChunks (fixEntry lo e)"
proof -
  let ?f = "fixEntry lo e"
  have eo: "EndOffset ?f = 0 \<Longrightarrow> lo = 0 \<or> EndOffset e \<noteq> 0" by (auto split: if_splits)
  have keep: "(if EndOffset x = 0 then setEndOffset lo x else x) = x"
    if "EndOffset x = EndOffset ?f" for x
  proof (cases "EndOffset x = 0")
    case True
    then have "EndOffset ?f = 0" using that by simp
    then have "lo = 0" by (auto split: if_splits)
    then have "setEndOffset lo x = setEndOffset (EndOffset x) x" using True by simp
    then show ?thesis by simp
  next
    case False
    then show ?thesis by simp
  qed
  show ?thesis
  proof (cases "Type ?f = TypeReg")
    case True
    have "fixEntry lo (setChunks [?f] ?f) = setChunks [setSize (EndOffset ?f - Offset_fm ?f) ?f] ?f"
      unfolding fixEntry_def [of lo "setChunks [?f] ?f"] Let_def keep [of "setChunks [?f] ?f", simplified]
      by (simp add: chunkStep_def)
    then show ?thesis using True by (simp add: collapseChunks_def)
  next
    case False
    have ch: "Chunks_fm ?f = fst (foldr chunkStep (Chunks_fm e) ([], EndOffset ?f))"
      by (simp add: fixEntry_def Let_def)
    have "fixEntry lo ?f = setChunks (fst (foldr chunkStep (Chunks_fm ?f) ([], EndOffset ?f))) ?f"
      unfolding fixEntry_def [of lo ?f] Let_def keep [of ?f, simplified] by simp
    also have "fst (foldr chunkStep (Chunks_fm ?f) ([], EndOffset ?f)) = Chunks_fm ?f"
      by (rule ssubst [OF ch, where P = "\<lambda>x. fst (foldr chunkStep x ([], EndOffset ?f)) = x"])
         (rule fixChunks_idem)
    finally show ?thesis using False by (simp add: collapseChunks_def)
  qed
qed

lemma fixEndOffsets_again:
  "fixEndOffsets T (map (\<lambda>e. if Type e = TypeReg then setChunks [e] e else e) (fixEndOffsets T ms))
     = map collapseChunks (fixEndOffsets T ms)"
proof (induction ms)
  case Nil
  show ?case by (simp add: fixEndOffsets_Cons)
next
  case (Cons e es)
  let ?pre = "\<lambda>e. if Type e = TypeReg then setChunks [e] e else e"
  have "map Offset_fm (map ?pre (fixEndOffsets T es)) = map Offset_fm es"
    by (simp add: comp_def if_distrib [of Offset_fm] cong: if_cong)
  then have lo: "lastOffsetOf T (map ?pre (fixEndOffsets T es)) = lastOffsetOf T es"
    by (rule lastOffsetOf_cong)
  show ?case
    unfolding fixEndOffsets_Cons list.map lo Cons.IH
    using fixEntry_again [of "lastOffsetOf T es" e] by simp
qed

text \<open>
  Claim C6, amended. Applying the merger to a merged list it produced succeeds with the
  same total size and the same entries, except that the chunk list of every regular file
  is replaced by a single chunk: a copy of the merged entry itself, with its size
  recomputed from its offsets.
\<close>

theorem mergeTocEntries_twice:
  assumes "mergeTocEntries tocOffset fileType entries = Inr (merged, totalSize)"
  shows "mergeTocEntries tocOffset fileType merged = Inr (map collapseChunks merged, totalSize)"
proof -
  from assms obtain ms where ms: "absorbEntries fileType entries = Inr (ms, totalSize)"
    and merged: "merged = fixEndOffsets tocOffset ms"
    by (auto simp: mergeTocEntries_absorbEntries split: sum.splits)
  have ok: "\<forall>e \<in> set merged. Type e \<noteq> TypeChunk \<and> \<not> mustSkipFile fileType e"
  proof
    fix e assume "e \<in> set merged"
    then obtain j where j: "j < length ms" "e = fixEndOffsets tocOffset ms ! j"
      unfolding merged by (auto simp: in_set_conv_nth)
    from fixEndOffsets_nth [OF j(1)] j(2) obtain lo where e: "e = fixEntry lo (ms ! j)" by metis
    have "mustSkipFile fileType e = mustSkipFile fileType (ms ! j)"
      unfolding e by (simp add: mustSkipFile_def)
    then show "Type e \<noteq> TypeChunk \<and> \<not> mustSkipFile fileType e"
      using absorbEntries_no_chunk [OF ms] j(1) e by simp
  qed
  have "totalSize = foldr (\<lambda>e t. Size e + t) merged 0"
    using absorbEntries_total [OF ms] unfolding merged by simp
  then show ?thesis
    unfolding mergeTocEntries_absorbEntries [of tocOffset fileType merged]
      absorbEntries_merged [OF ok]
    by (simp add: merged fixEndOffsets_again)
qed

text \<open>
  Claim C6 as stated fails wherever a regular file has a continuation chunk: the first
  run gives the file two chunks, the second run a single one.
\<close>

theorem mergeTocEntries_not_idempotent:
  "mergeTocEntries 100 fileTypeZstdChunked
     [tocEntry TypeReg ''a'' 30 10, tocEntry TypeChunk ''a'' 0 20]
   = Inr ([FileMetadata TypeReg ''a'' 0 30 0 0 None [] 10 100
            [FileMetadata TypeReg ''a'' 0 10 0 0 None [] 10 20 [],
             FileMetadata TypeChunk ''a'' 0 80 0 0 None [] 20 100 []]], 30)
   \<and> mergeTocEntries 100 fileTypeZstdChunked
     [FileMetadata TypeReg ''a'' 0 30 0 0 None [] 10 100
        [FileMetadata TypeReg ''a'' 0 10 0 0 None [] 10 20 [],
         FileMetadata TypeChunk ''a'' 0 80 0 0 None [] 20 100 []]]
   = Inr ([FileMetadata TypeReg ''a'' 0 30 0 0 None [] 10 100
            [FileMetadata TypeReg ''a'' 0 90 0 0 None [] 10 100
               [FileMetadata TypeReg ''a'' 0 10 0 0 None [] 10 20 [],
                FileMetadata TypeChunk ''a'' 0 80 0 0 None [] 20 100 []]]], 30)
   \<and> mergeTocEntries 100 fileTypeZstdChunked
     [FileMetadata TypeReg ''a'' 0 30 0 0 None [] 10 100
        [FileMetadata TypeReg ''a'' 0 10 0 0 None [] 10 20 [],
         FileMetadata TypeChunk ''a'' 0 80 0 0 None [] 20 100 []]]
   \<noteq> Inr ([FileMetadata TypeReg ''a'' 0 30 0 0 None [] 10 100
            [FileMetadata TypeReg ''a'' 0 10 0 0 None [] 10 20 [],
             FileMetadata TypeChunk ''a'' 0 80 0 0 None [] 20 100 []]], 30)"
  by (simp add: merger_eval)

text \<open>The amended claim at a directory and a regular file without continuation chunks.\<close>

theorem mergeTocEntries_twice_witness:
  "mergeTocEntries 100 fileTypeZstdChunked [tocEntry ''dir'' ''d'' 0 0, tocEntry TypeReg ''b'' 5 40]
   = Inr ([FileMetadata ''dir'' ''d'' 0 0 0 0 None [] 0 40 [],
           FileMetadata TypeReg ''b'' 0 5 0 0 None [] 40 100
             [FileMetadata TypeReg ''b'' 0 60 0 0 None [] 40 100 []]], 5)
   \<and> mergeTocEntries 100 fileTypeZstdChunked
        [FileMetadata ''dir'' ''d'' 0 0 0 0 None [] 0 40 [],
         FileMetadata TypeReg ''b'' 0 5 0 0 None [] 40 100
           [FileMetadata TypeReg ''b'' 0 60 0 0 None [] 40 100 []]]
   = Inr ([FileMetadata ''dir'' ''d'' 0 0 0 0 None [] 0 40 [],
           FileMetadata TypeReg ''b'' 0 5 0 0 None [] 40 100
             [FileMetadata TypeReg ''b'' 0 60 0 0 None [] 40 100
                [FileMetadata TypeReg ''b'' 0 60 0 0 None [] 40 100 []]]], 5)"
proof -
  have e: "mergeTocEntries 100 fileTypeZstdChunked
      [tocEntry ''dir'' ''d'' 0 0, tocEntry TypeReg ''b'' 5 40]
   = Inr ([FileMetadata ''dir'' ''d'' 0 0 0 0 None [] 0 40 [],
           FileMetadata TypeReg ''b'' 0 5 0 0 None [] 40 100
             [FileMetadata TypeReg ''b'' 0 60 0 0 None [] 40 100 []]], 5)"
    by (simp add: merger_eval)
  from mergeTocEntries_twice [OF e] e show ?thesis
    by (simp add: collapseChunks_def TypeReg_def)
qed

section \<open>Properties of the hard-link metadata check\<close>

lemma readXattrs_Some:
  "\<forall>x \<in> set names. getx x \<noteq> None \<Longrightarrow>
   readXattrs getx names m0
     = Some (\<lambda>x. if x \<in> set names \<and> x \<notin> xattrsToIgnore then getx x else m0 x)"
proof (induction names arbitrary: m0)
  case Nil
  show ?case by simp
next
  case (Cons n names)
  then obtain v where v: "getx n = Some v" by auto
  have ih: "\<And>m. readXattrs getx names m
      = Some (\<lambda>x. if x \<in> set names \<and> x \<notin> xattrsToIgnore then getx x else m x)"
    using Cons by simp
  show ?case
    unfolding readXattrs.simps v option.case ih
    by (auto simp: fun_eq_iff v)
qed

lemma readXattrs_None:
  "\<exists>x \<in> set names. getx x = None \<Longrightarrow> readXattrs getx names m0 = None"
  by (induction names arbitrary: m0) (auto split: option.splits)

lemma readXattrs_iff:
  "readXattrs getx names m0 = Some m \<longleftrightarrow>
     (\<forall>x \<in> set names. getx x \<noteq> None)
     \<and> m = (\<lambda>x. if x \<in> set names \<and> x \<notin> xattrsToIgnore then getx x else m0 x)"
proof (cases "\<forall>x \<in> set names. getx x \<noteq> None")
  case True
  then show ?thesis using readXattrs_Some [OF True, of m0] by auto
next
  case False
  then show ?thesis using readXattrs_None [of names getx m0] by auto
qed

declare digits.simps [simp del]

text \<open>
  What \<^verbatim>\<open>canDedupFileWithHardLink\<close> decides, in terms of what the two calls return
  for the path of the descriptor's entry in \<^verbatim>\<open>/proc\<close>: it accepts only if the uid, gid
  and mode are those of the TOC entry and the attributes listed for that path, without
  those on the ignore list, are the attribute map of the TOC entry; and where every
  attribute listed for that path can be read, it accepts exactly then.
\<close>

lemma canDedupFileWithHardLink_iff:
  "(canDedupFileWithHardLink system file fd s \<longrightarrow>
      (\<exists>st names. s = Some st \<and> Llistxattr system (procSelfFd fd) = Some names
         \<and> UID file = uint (Uid st) \<and> GID file = uint (Gid st) \<and> Mode file = ucast (Mode_st st)
         \<and> Xattrs file
             = Some (\<lambda>x. if x \<in> set names \<and> x \<notin> xattrsToIgnore
                         then Lgetxattr system (procSelfFd fd) x else None)))
   \<and> (Llistxattr system (procSelfFd fd) = Some names
        \<and> (\<forall>x \<in> set names. Lgetxattr system (procSelfFd fd) x \<noteq> None)
        \<and> Xattrs file = Some xm
      \<longrightarrow> canDedupFileWithHardLink system file fd (Some st)
          = (UID file = uint (Uid st) \<and> GID file = uint (Gid st) \<and> Mode file = ucast (Mode_st st)
             \<and> xm = (\<lambda>x. if x \<in> set names \<and> x \<notin> xattrsToIgnore
                          then Lgetxattr system (procSelfFd fd) x else None)))"
proof (intro conjI impI)
  assume "canDedupFileWithHardLink system file fd s"
  then show "\<exists>st names. s = Some st \<and> Llistxattr system (procSelfFd fd) = Some names
         \<and> UID file = uint (Uid st) \<and> GID file = uint (Gid st) \<and> Mode file = ucast (Mode_st st)
         \<and> Xattrs file
             = Some (\<lambda>x. if x \<in> set names \<and> x \<notin> xattrsToIgnore
                         then Lgetxattr system (procSelfFd fd) x else None)"
    by (auto simp: canDedupFileWithHardLink_def canDedupMetadataWithHardLink_def DeepEqual_def
          readXattrs_iff Let_def split: option.splits if_splits)
next
  assume a: "Llistxattr system (procSelfFd fd) = Some names
        \<and> (\<forall>x \<in> set names. Lgetxattr system (procSelfFd fd) x \<noteq> None)
        \<and> Xattrs file = Some xm"
  then have "readXattrs (Lgetxattr system (procSelfFd fd)) names Map.empty
      = Some (\<lambda>x. if x \<in> set names \<and> x \<notin> xattrsToIgnore
                  then Lgetxattr system (procSelfFd fd) x else None)"
    using readXattrs_Some [of names "Lgetxattr system (procSelfFd fd)" Map.empty] by simp
  with a show "canDedupFileWithHardLink system file fd (Some st)
          = (UID file = uint (Uid st) \<and> GID file = uint (Gid st) \<and> Mode file = ucast (Mode_st st)
             \<and> xm = (\<lambda>x. if x \<in> set names \<and> x \<notin> xattrsToIgnore
                          then Lgetxattr system (procSelfFd fd) x else None))"
    by (auto simp: canDedupFileWithHardLink_def canDedupMetadataWithHardLink_def DeepEqual_def
          Let_def)
qed

text \<open>
  On a file system, the path handed to the two calls names a symbolic link, and the
  calls do not follow it: whatever attributes the open file carries, the map that is
  compared with the TOC entry is empty.
\<close>

lemma canDedupFileWithHardLink_ignores_the_file:
  assumes "fs (procSelfFd fd) = Some (SymlinkNode target)"
  shows "canDedupFileWithHardLink (noFollowCalls fs) file fd (Some st)
     = (UID file = uint (Uid st) \<and> GID file = uint (Gid st) \<and> Mode file = ucast (Mode_st st)
        \<and> Xattrs file = Some Map.empty)"
  using assms
  by (auto simp: canDedupFileWithHardLink_def canDedupMetadataWithHardLink_def DeepEqual_def
        noFollowCalls_def attributesAt_def Let_def split: option.splits)

text \<open>
  Claim C7, on the code. Descriptor 7 is open on the file \<open>/store/a\<close>, whose only
  attribute is \<open>user.a\<close> with the value \<open>1\<close>; uid, gid and mode are those of the TOC
  entry. Against a TOC entry with an empty attribute map the candidate is accepted,
  though its attribute map is not that of the entry; against a TOC entry with the very
  attribute of the file it is refused, though the two maps are equal. The claim is what
  the comment of \<^verbatim>\<open>canDedupMetadataWithHardLink\<close> says: the two files have the same
  uid, gid, mode and attributes.
\<close>

theorem canDedupFileWithHardLink_reads_the_link:
  "canDedupFileWithHardLink
     (noFollowCalls [''/proc/self/fd/7'' \<mapsto> SymlinkNode ''/store/a'',
                     ''/store/a'' \<mapsto> RegularNode [(''user.a'', ''1'')]])
     (FileMetadata TypeReg ''f'' 420 0 1000 1000 (Some Map.empty) [] 0 0 [])
     7 (Some \<lparr>Uid = 1000, Gid = 1000, Mode_st = 420\<rparr>)
   \<and> attributesOfOpenFile [''/proc/self/fd/7'' \<mapsto> SymlinkNode ''/store/a'',
                            ''/store/a'' \<mapsto> RegularNode [(''user.a'', ''1'')]] 7
       = Some [''user.a'' \<mapsto> ''1'']
   \<and> [''user.a'' \<mapsto> ''1''] \<noteq> (Map.empty :: string \<rightharpoonup> string)
   \<and> \<not> canDedupFileWithHardLink
     (noFollowCalls [''/proc/self/fd/7'' \<mapsto> SymlinkNode ''/store/a'',
                     ''/store/a'' \<mapsto> RegularNode [(''user.a'', ''1'')]])
     (FileMetadata TypeReg ''f'' 420 0 1000 1000 (Some [''user.a'' \<mapsto> ''1'']) [] 0 0 [])
     7 (Some \<lparr>Uid = 1000, Gid = 1000, Mode_st = 420\<rparr>)"
proof -
  let ?fs = "[''/proc/self/fd/7'' \<mapsto> SymlinkNode ''/store/a'',
              ''/store/a'' \<mapsto> RegularNode [(''user.a'', ''1'')]]"
  have path: "procSelfFd 7 = ''/proc/self/fd/7''"
    by (simp add: procSelfFd_def digits.simps)
  have link: "?fs (procSelfFd 7) = Some (SymlinkNode ''/store/a'')"
    unfolding path by simp
  have attrs: "attributesOfOpenFile ?fs 7 = Some [''user.a'' \<mapsto> ''1'']"
    unfolding attributesOfOpenFile_def path by simp
  have differ: "[''user.a'' \<mapsto> ''1''] \<noteq> (Map.empty :: string \<rightharpoonup> string)"
    by simp
  show ?thesis
    unfolding canDedupFileWithHardLink_ignores_the_file
        [where fs = ?fs and fd = 7 and target = "''/store/a''", OF link]
    using attrs differ by simp
qed

section \<open>Properties of the destination writer\<close>

lemma hashHoleLoop_zeros:
  assumes "buf \<noteq> []" and "\<forall>i < min (nat sz0) (length buf). buf ! i = 0" and "sz \<le> sz0"
  shows "hashHoleLoop h sz buf = Some (h @ replicate (nat sz) 0)"
  using assms(3)
proof (induction "nat sz" arbitrary: sz h rule: less_induct)
  case less
  show ?case
  proof (cases "sz > 0")
    case False
    then show ?thesis by (subst hashHoleLoop.simps) simp
  next
    case True
    define count where "count = (if sz < int (length buf) then sz else int (length buf))"
    have cpos: "0 < count" "count \<le> sz" "nat count \<le> length buf"
      using True assms(1) by (auto simp: count_def)
    have "nat count \<le> min (nat sz0) (length buf)"
      using cpos less.prems by simp
    then have tk: "take (nat count) buf = replicate (nat count) 0"
      using assms(2) cpos(3) by (intro nth_equalityI) auto
    have "nat (sz - count) < nat sz" using cpos True by simp
    moreover have "sz - count \<le> sz0" using cpos less.prems by simp
    ultimately have ih: "hashHoleLoop (h @ replicate (nat count) 0) (sz - count) buf
        = Some ((h @ replicate (nat count) 0) @ replicate (nat (sz - count)) 0)"
      by (rule less.hyps)
    have "replicate (nat count) (0 :: byte) @ replicate (nat (sz - count)) 0 = replicate (nat sz) 0"
      using cpos by (simp add: replicate_add [symmetric] nat_add_distrib [symmetric])
    then show ?thesis
      using True ih tk by (subst hashHoleLoop.simps) (simp add: count_def [symmetric] Let_def)
  qed
qed

lemma hashHole_zeros:
  assumes "buf \<noteq> []"
  shows "hashHole h sz buf = Some (h @ replicate (nat sz) 0)"
proof -
  define count where "count = (if sz < int (length buf) then sz else int (length buf))"
  have ne: "zeroFront count buf \<noteq> []"
    using assms by (cases "nat count") (auto simp: zeroFront_def count_def)
  have len: "length (zeroFront count buf) = length buf"
    by (auto simp: zeroFront_def count_def)
  have "\<forall>i < min (nat sz) (length (zeroFront count buf)). zeroFront count buf ! i = 0"
    by (auto simp: zeroFront_def count_def nth_append)
  from hashHoleLoop_zeros [OF ne this order_refl]
  show ?thesis by (simp add: hashHole_def count_def [symmetric] Let_def)
qed

lemma appendHole_at_end:
  assumes "fileOffset d = int (length (content d))" and "0 \<le> sz"
  shows "appendHole d sz
     = Inr (d\<lparr>fileOffset := fileOffset d + sz, content := content d @ replicate (nat sz) 0\<rparr>)"
  using assms by (simp add: appendHole_def Let_def nat_add_distrib)

lemma deferredClose_keeps_error [simp]: "deferredClose w d (Some e) = Some e"
  by (simp add: deferredClose_def Let_def split: option.splits)


lemma hole_step:
  assumes "0 \<le>s n" and "copyBuffer c \<noteq> []" and "fileOffset d = int (length (content d))"
  shows "appendCompressedStreamToFile c fileTypeHole d n
     = Some (Inr (d\<lparr>fileOffset := fileOffset d + sint n,
                     content := content d @ replicate (nat (sint n)) 0,
                     hash := map_option (\<lambda>h. h @ replicate (nat (sint n)) 0) (hash d)\<rparr>))"
proof -
  from assms(1) have n: "0 \<le> sint n" by (simp add: word_sle_eq)
  define d1 where "d1 = d\<lparr>fileOffset := fileOffset d + sint n,
      content := content d @ replicate (nat (sint n)) 0\<rparr>"
  have h1: "appendHole d (sint n) = Inr d1"
    using appendHole_at_end [OF assms(3) n] by (simp add: d1_def)
  show ?thesis
  proof (cases "hash d")
    case None
    then show ?thesis using h1 by (simp add: appendCompressedStreamToFile_def d1_def)
  next
    case (Some h)
    then show ?thesis
      using h1 hashHole_zeros [OF assms(2), of h "sint n"]
      by (simp add: appendCompressedStreamToFile_def d1_def)
  qed
qed

text \<open>
  Claim C4. Writing a hole of \<open>n\<close> bytes (a size that is not negative, with the copy
  buffer of the differ, which is not empty) to a file whose offset is at its end returns;
  it advances the file offset and the file length by \<open>n\<close>, the new bytes being zeros;
  and when the file has a hasher, exactly \<open>n\<close> zero bytes are fed to it. So for a file
  opened with validation and written through the hole path only, the hasher has taken
  \<open>n\<close> zero bytes, which is the content of the file, and closing it right away against
  the digest of \<open>n\<close> zero bytes passes the validation: the result of \<^verbatim>\<open>Close\<close> is that
  of setting the attributes and closing.
\<close>

theorem hole_write_hashes_zeros:
  assumes "0 \<le>s n" and "copyBuffer c \<noteq> []" and "fileOffset d = int (length (content d))"
  shows "(\<exists>d'. appendCompressedStreamToFile c fileTypeHole d n = Some (Inr d')
            \<and> fileOffset d' = fileOffset d + sint n
            \<and> int (length (content d')) = int (length (content d)) + sint n
            \<and> content d' = content d @ replicate (nat (sint n)) 0
            \<and> hash d' = map_option (\<lambda>h. h @ replicate (nat (sint n)) 0) (hash d))
       \<and> (openDestinationFile w md False verity = Inr d \<longrightarrow>
            (\<exists>d'. appendCompressedStreamToFile c fileTypeHole d n = Some (Inr d')
               \<and> hash d' = Some (replicate (nat (sint n)) 0)
               \<and> content d' = replicate (nat (sint n)) 0
               \<and> (validDigest w (Digest md) \<and> Digest md = digestOf w (replicate (nat (sint n)) 0)
                    \<longrightarrow> Close w d' = deferredClose w d' (sysErr (setFileAttrs w d')))))"
proof -
  from assms(1) have n: "0 \<le> sint n" by (simp add: word_sle_eq)
  define d' where "d' = d\<lparr>fileOffset := fileOffset d + sint n,
      content := content d @ replicate (nat (sint n)) 0,
      hash := map_option (\<lambda>h. h @ replicate (nat (sint n)) 0) (hash d)\<rparr>"
  have app: "appendCompressedStreamToFile c fileTypeHole d n = Some (Inr d')"
    unfolding d'_def by (rule hole_step [OF assms])
  have props: "fileOffset d' = fileOffset d + sint n"
    "int (length (content d')) = int (length (content d)) + sint n"
    "content d' = content d @ replicate (nat (sint n)) 0"
    "hash d' = map_option (\<lambda>h. h @ replicate (nat (sint n)) 0) (hash d)"
    using n by (simp_all add: d'_def)
  have fresh: "hash d' = Some (replicate (nat (sint n)) 0) \<and> content d' = replicate (nat (sint n)) 0
      \<and> (validDigest w (Digest md) \<and> Digest md = digestOf w (replicate (nat (sint n)) 0)
            \<longrightarrow> Close w d' = deferredClose w d' (sysErr (setFileAttrs w d')))"
    if o: "openDestinationFile w md False verity = Inr d"
  proof -
    from o have d: "hash d = Some []" "content d = []" "metadata d = md" "skipValidation d = False"
      by (auto simp: openDestinationFile_def split: option.splits)
    then have "hash d' = Some (replicate (nat (sint n)) 0)" "content d' = replicate (nat (sint n)) 0"
      "metadata d' = md" "skipValidation d' = False"
      by (simp_all add: d'_def)
    then show ?thesis by (auto simp: Close_def)
  qed
  show ?thesis using app props fresh by blast
qed

text \<open>The claim at a hole of ten bytes in a new file, with a copy buffer of three bytes.\<close>

theorem hole_write_hashes_zeros_witness:
  "\<exists>d'. appendCompressedStreamToFile
          \<lparr>zstdReader = ([], None), gzipReader = ([], None), rawReader = ([], None), copyBuffer = [1, 2, 3]\<rparr>
          fileTypeHole
          \<lparr>fileName = ''f'', content = [], fileOffset = 0, hash = Some [],
           metadata = FileMetadata TypeReg ''f'' 0 10 0 0 None ''sha256:zeros'' 0 0 [],
           skipValidation = False, hasRecordFsVerity = False\<rparr>
          10 = Some (Inr d')
        \<and> content d' = replicate 10 0 \<and> hash d' = Some (replicate 10 0)
        \<and> Close (quietWorld (\<lambda>s. s \<noteq> []) (\<lambda>bs. if set bs \<subseteq> {0} then ''sha256:zeros'' else ''sha256:other'')) d'
            = None"
proof -
  let ?c = "\<lparr>zstdReader = ([], None), gzipReader = ([], None), rawReader = ([], None), copyBuffer = [1, 2, 3 :: byte]\<rparr>"
  let ?md = "FileMetadata TypeReg ''f'' 0 10 0 0 None ''sha256:zeros'' 0 0 []"
  let ?d = "\<lparr>fileName = ''f'', content = [], fileOffset = 0, hash = Some [],
           metadata = ?md, skipValidation = False, hasRecordFsVerity = False\<rparr>"
  let ?w = "quietWorld (\<lambda>s. s \<noteq> []) (\<lambda>bs. if set bs \<subseteq> {0 :: byte} then ''sha256:zeros'' else ''sha256:other'')"
  have n: "(0 :: int64) \<le>s 10" by (simp add: word_sle_eq)
  have b: "copyBuffer ?c \<noteq> []" by simp
  have e: "fileOffset ?d = int (length (content ?d))" by simp
  have o: "openDestinationFile ?w ?md False False = Inr ?d"
    by (simp add: openDestinationFile_def quietWorld_def)
  have v: "validDigest ?w (Digest ?md) \<and> Digest ?md = digestOf ?w (replicate (nat (sint (10 :: int64))) 0)"
    by (simp add: quietWorld_def)
  from hole_write_hashes_zeros [OF n b e, of ?w ?md False] o v
  obtain d' where d': "appendCompressedStreamToFile ?c fileTypeHole ?d 10 = Some (Inr d')"
    "hash d' = Some (replicate (nat (sint (10 :: int64))) 0)"
    "content d' = replicate (nat (sint (10 :: int64))) 0"
    "Close ?w d' = deferredClose ?w d' (sysErr (setFileAttrs ?w d'))"
    by blast
  have "hasRecordFsVerity d' = False"
    using d'(1) by (auto simp: appendCompressedStreamToFile_def appendHole_def Let_def
        split: if_splits option.splits)
  then have "Close ?w d' = None"
    using d'(4) by (simp add: deferredClose_def sysErr_def quietWorld_def Let_def)
  then show ?thesis using d' by (intro exI [of _ d']) simp
qed









text \<open>
  A hole of negative size moves the offset back and cuts the file there, and feeds
  nothing to the hasher: after five bytes and a hole of size \<open>-2\<close> the file holds three
  bytes and the hasher five, and \<^verbatim>\<open>Close\<close> passes against the digest of the five. No
  check of the size stands before the two system calls; the property below leaves
  holes of negative size out.
\<close>

lemma negative_hole_leaves_hasher_ahead:
  "appendAll
     [(\<lparr>zstdReader = ([], None), gzipReader = ([], None), rawReader = ([1, 2, 3, 4, 5], None),
        copyBuffer = [0, 0]\<rparr>, fileTypeNoCompression, 5),
      (\<lparr>zstdReader = ([], None), gzipReader = ([], None), rawReader = ([], None),
        copyBuffer = [0, 0]\<rparr>, fileTypeHole, - 2)]
     \<lparr>fileName = ''f'', content = [], fileOffset = 0, hash = Some [],
      metadata = FileMetadata TypeReg ''f'' 0 5 0 0 None ''sha256:five'' 0 0 [],
      skipValidation = False, hasRecordFsVerity = False\<rparr>
   = Some \<lparr>fileName = ''f'', content = [1, 2, 3], fileOffset = 3, hash = Some [1, 2, 3, 4, 5],
      metadata = FileMetadata TypeReg ''f'' 0 5 0 0 None ''sha256:five'' 0 0 [],
      skipValidation = False, hasRecordFsVerity = False\<rparr>
   \<and> Close (quietWorld (\<lambda>s. s \<noteq> [])
              (\<lambda>bs. if length bs = 5 then ''sha256:five'' else ''sha256:other''))
       \<lparr>fileName = ''f'', content = [1, 2, 3], fileOffset = 3, hash = Some [1, 2, 3, 4, 5],
        metadata = FileMetadata TypeReg ''f'' 0 5 0 0 None ''sha256:five'' 0 0 [],
        skipValidation = False, hasRecordFsVerity = False\<rparr>
     = None"
proof -
  have m: "sint (- 2 :: int64) = - 2" by simp
  have five: "sint (5 :: int64) = 5" by simp
  have h: "hashHole [1, 2, 3, 4, 5] (- 2) [0, 0] = Some [1, 2, 3, 4, 5]"
    unfolding hashHole_def Let_def by (subst hashHoleLoop.simps) simp
  show ?thesis
    by (simp add: appendCompressedStreamToFile_def copyLimited_def writeTo_def writeFile_def
          appendHole_def h m five Close_def deferredClose_def sysErr_def quietWorld_def Let_def)
qed




end
